theory Spec2Isabelle
  imports Complex_Main
begin

section \<open>JavaScript values the model needs\<close>

text \<open>
  A thrown object, as far as the code inspects it: the \<^verbatim>\<open>status\<close> property
  (\<^verbatim>\<open>undefined\<close> is \<open>None\<close>) and the message. \<^verbatim>\<open>new Error(msg)\<close> has no status;
  an error of the provider's client library carries the HTTP status.
\<close>

datatype error = Error (status: "int option") (message: string)

definition TypeError :: error where
  "TypeError = Error None ''TypeError''"

text \<open>How a promise created by \<^verbatim>\<open>waitForToken\<close> can be settled.\<close>

datatype settlement = Resolved bool | Rejected error

section \<open>The rate limiter of rateLimiter.js\<close>

text \<open>
  The fields of \<^verbatim>\<open>class RateLimiter\<close> (\<open>tokens\<close>, \<open>maxTokens\<close>, \<open>lastRefill\<close>,
  \<open>waitQueue\<close>) together with the part of the JavaScript event loop that the class
  talks to. The first three fields and the clock form the record \<open>bucket\<close>, which the
  limiter that index.js declares for itself (next section) extends too:
  \<^item> \<open>clock\<close> is what \<^verbatim>\<open>Date.now()\<close> returns (milliseconds);
  \<^item> \<open>timer\<close> is the pending \<^verbatim>\<open>setTimeout\<close> of the \<^verbatim>\<open>await delay(waitTime)\<close> inside
    \<^verbatim>\<open>processQueue\<close>, as the clock reading at which it is due;
  \<^item> a queue entry \<^verbatim>\<open>{ resolve, reject }\<close> is the number of the call of
    \<^verbatim>\<open>waitForToken\<close> that created it (\<open>nextReq\<close> counts the calls);
  \<^item> \<open>settled\<close> lists the calls of \<^verbatim>\<open>resolve\<close> and \<^verbatim>\<open>reject\<close> in the order they
    were made: the request, the settlement and the clock reading.

  Code that runs without an \<^verbatim>\<open>await\<close> runs to completion before anything else
  happens; the model lets it read one clock value throughout.
\<close>

record bucket =
  tokens :: int
  maxTokens :: int
  lastRefill :: int
  clock :: int

record sched = bucket +
  waitQueue :: "nat list"
  timer :: "int option"
  nextReq :: nat
  settled :: "(nat \<times> settlement \<times> int) list"

text \<open>\<^verbatim>\<open>new RateLimiter(tokensPerMinute)\<close>, constructed when the clock reads \<open>now\<close>.\<close>

definition RateLimiter :: "int \<Rightarrow> int \<Rightarrow> sched" where
  "RateLimiter tokensPerMinute now =
     \<lparr> tokens = tokensPerMinute, maxTokens = tokensPerMinute, lastRefill = now,
       clock = now, waitQueue = [], timer = None, nextReq = 0, settled = [] \<rparr>"

text \<open>
  The first four statements of the loop body of \<^verbatim>\<open>processQueue\<close>:
  \<^verbatim>\<open>
  const now = Date.now();
  const timePassed = now - this.lastRefill;
  const refillAmount = Math.floor(timePassed / (60 * 1000) * this.maxTokens);
  this.tokens = Math.min(this.maxTokens, this.tokens + refillAmount);
  this.lastRefill = now;
  \<close>
  Here the quotient is taken exactly (\<open>div\<close> on \<open>int\<close> rounds down, as \<^verbatim>\<open>Math.floor\<close>
  does). The code divides and multiplies in double precision, which \<open>jsRefillAmount\<close>
  further down computes. The two numbers can differ by one (capacity 50 after 34800 ms).
  With capacity 3, which is what \<^verbatim>\<open>new RateLimiter(3)\<close> gives both programs, the two
  refills are the same (\<open>jsRefill_capacity_3\<close>).
\<close>

definition refillAmount :: "'a bucket_scheme \<Rightarrow> int" where
  "refillAmount s = ((clock s - lastRefill s) * maxTokens s) div 60000"

definition refill :: "'a bucket_scheme \<Rightarrow> 'a bucket_scheme" where
  "refill s = s\<lparr> tokens := min (maxTokens s) (tokens s + refillAmount s),
                 lastRefill := clock s \<rparr>"

text \<open>
  \<^verbatim>\<open>Math.ceil((60 * 1000) / this.maxTokens)\<close>. For \<open>maxTokens = 0\<close> JavaScript gives
  \<^verbatim>\<open>Infinity\<close> and HOL gives 0; the theorems below are about a positive capacity.
\<close>

definition waitTime :: "'a bucket_scheme \<Rightarrow> int" where
  "waitTime s = - ((- 60000) div maxTokens s)"

text \<open>
  \<^verbatim>\<open>
  async processQueue() {
    while (this.waitQueue.length > 0) {
      ... refill ...
      if (this.tokens < 1) {
        const waitTime = Math.ceil((60 * 1000) / this.maxTokens);
        console.log(`Rate limit reached, waiting ${waitTime/1000} seconds...`);
        await delay(waitTime);
        continue;
      }
      const { resolve } = this.waitQueue.shift();
      this.tokens--;
      resolve(true);
    }
  }
  \<close>
  The function below is the loop from its head up to the next \<^verbatim>\<open>await\<close> or to its
  exit. At the \<^verbatim>\<open>await\<close> it leaves the timer set (\<open>suspend\<close>); the event \<open>Wake\<close>
  below enters the loop at its head again, which is what \<^verbatim>\<open>continue\<close> does. The last
  three statements are \<open>grant\<close>: destructuring the result of \<^verbatim>\<open>shift()\<close> on an empty
  array throws a TypeError, so that is a branch of the model. The line that the limiter
  writes on the console before it sleeps is not recorded.
\<close>

definition suspend :: "sched \<Rightarrow> sched" where
  "suspend s = s\<lparr> timer := Some (clock s + waitTime s) \<rparr>"

definition grant :: "sched \<Rightarrow> error + sched" where
  "grant s =
     (case waitQueue s of
        [] \<Rightarrow> Inl TypeError
      | r # rest \<Rightarrow>
          Inr (s\<lparr> waitQueue := rest, tokens := tokens s - 1,
                  settled := settled s @ [(r, Resolved True, clock s)] \<rparr>))"

function processQueue :: "sched \<Rightarrow> error + sched" where
  "processQueue s =
     (if length (waitQueue s) > 0 then
        (let s1 = refill s in
         if tokens s1 < 1 then Inr (suspend s1)
         else (case grant s1 of Inl e \<Rightarrow> Inl e | Inr s2 \<Rightarrow> processQueue s2))
      else Inr s)"
  by pat_completeness auto
termination
  by (relation "measure (\<lambda>s. length (waitQueue s))")
     (auto simp: refill_def grant_def split: list.splits)

declare processQueue.simps [simp del]

text \<open>
  \<^verbatim>\<open>
  async waitForToken() {
    const request = new Promise((resolve, reject) => {
      this.waitQueue.push({ resolve, reject });
    });
    if (this.waitQueue.length === 1) {
      this.processQueue();
    }
    return request;
  }
  \<close>
  The promise returned is request number \<open>nextReq s\<close>. An exception of
  \<^verbatim>\<open>processQueue\<close> would surface as an unhandled rejection; the model reports it as
  the result of the call.
\<close>

definition waitForToken :: "sched \<Rightarrow> error + sched" where
  "waitForToken s =
     (let s1 = s\<lparr> waitQueue := waitQueue s @ [nextReq s], nextReq := Suc (nextReq s) \<rparr>
      in if length (waitQueue s1) = 1 then processQueue s1 else Inr s1)"

text \<open>
  What can happen to the limiter: a caller calls \<^verbatim>\<open>waitForToken\<close>; time passes; the
  timer of \<^verbatim>\<open>delay\<close> fires, which it does no earlier than it is due. A \<open>Wake\<close> with no
  timer due changes nothing.
\<close>

datatype event = Arrive | Elapse int | Wake

fun step :: "event \<Rightarrow> sched \<Rightarrow> error + sched" where
  "step Arrive s = waitForToken s"
| "step (Elapse d) s = Inr (s\<lparr> clock := clock s + d \<rparr>)"
| "step Wake s =
     (case timer s of
        None \<Rightarrow> Inr s
      | Some due \<Rightarrow> if due \<le> clock s then processQueue (s\<lparr> timer := None \<rparr>) else Inr s)"

fun run :: "event list \<Rightarrow> sched \<Rightarrow> error + sched" where
  "run [] s = Inr s"
| "run (e # es) s = (case step e s of Inl x \<Rightarrow> Inl x | Inr s' \<Rightarrow> run es s')"

text \<open>The clock never goes back: no negative \<open>Elapse\<close>.\<close>

fun forward :: "event \<Rightarrow> bool" where
  "forward (Elapse d) = (0 \<le> d)"
| "forward _ = True"

section \<open>The rate limiter that index.js declares for itself\<close>

text \<open>
  \<^verbatim>\<open>
  class RateLimiter {
    constructor(tokensPerMinute) {
      this.tokens = tokensPerMinute;
      this.maxTokens = tokensPerMinute;
      this.lastRefill = Date.now();
    }
    async waitForToken() {
      ... refill, the same five statements ...
      if (this.tokens < 1) {
        const waitTime = Math.ceil((60 * 1000) / this.maxTokens);
        console.log(`Rate limit reached, waiting ${waitTime/1000} seconds...`);
        await delay(waitTime);
        return this.waitForToken();
      }
      this.tokens--;
      return true;
    }
  }
  \<close>
  There is no queue: every call that finds no token sets a timer of its own and calls
  \<^verbatim>\<open>waitForToken\<close> again when it fires. \<open>sleeping\<close> holds these timers (the call and the
  clock reading at which its timer is due), \<open>callers\<close> counts the calls from outside, and
  \<open>returned\<close> lists the calls whose promise has been fulfilled, with the value and the
  clock reading.
\<close>

record direct = bucket +
  sleeping :: "(nat \<times> int) list"
  callers :: nat
  returned :: "(nat \<times> bool \<times> int) list"

definition DirectLimiter :: "int \<Rightarrow> int \<Rightarrow> direct" where
  "DirectLimiter tokensPerMinute now =
     \<lparr> tokens = tokensPerMinute, maxTokens = tokensPerMinute, lastRefill = now,
       clock = now, sleeping = [], callers = 0, returned = [] \<rparr>"

text \<open>The body of \<^verbatim>\<open>waitForToken\<close>, run for call \<open>r\<close>, up to its \<^verbatim>\<open>await\<close> or its return.\<close>

definition directAttempt :: "nat \<Rightarrow> direct \<Rightarrow> direct" where
  "directAttempt r s =
     (let s1 = refill s in
      if tokens s1 < 1 then s1\<lparr> sleeping := sleeping s1 @ [(r, clock s1 + waitTime s1)] \<rparr>
      else s1\<lparr> tokens := tokens s1 - 1, returned := returned s1 @ [(r, True, clock s1)] \<rparr>)"

text \<open>
  What can happen to this limiter: a call of \<^verbatim>\<open>waitForToken\<close> from outside; time passes;
  the timer of the sleeping call \<open>r\<close> fires, no earlier than it is due, and the call runs
  the body again. The line that the limiter writes on the console before it sleeps is not
  recorded.
\<close>

datatype direct_event = Call | Pass int | Fire nat

fun directStep :: "direct_event \<Rightarrow> direct \<Rightarrow> direct" where
  "directStep Call s = directAttempt (callers s) (s\<lparr> callers := Suc (callers s) \<rparr>)"
| "directStep (Pass d) s = s\<lparr> clock := clock s + d \<rparr>"
| "directStep (Fire r) s =
     (case map_of (sleeping s) r of
        None \<Rightarrow> s
      | Some due \<Rightarrow>
          if due \<le> clock s
          then directAttempt r (s\<lparr> sleeping := filter (\<lambda>x. fst x \<noteq> r) (sleeping s) \<rparr>)
          else s)"

fun directRun :: "direct_event list \<Rightarrow> direct \<Rightarrow> direct" where
  "directRun [] s = s"
| "directRun (e # es) s = directRun es (directStep e s)"

fun directForward :: "direct_event \<Rightarrow> bool" where
  "directForward (Pass d) = (0 \<le> d)"
| "directForward _ = True"

section \<open>The refill amount in double precision\<close>

text \<open>
  A JavaScript number is an IEEE 754 binary64 value, and \<^verbatim>\<open>/\<close> and \<^verbatim>\<open>*\<close> round the exact
  result to the nearest such value, ties to the even significand. For \<open>x > 0\<close> with
  \<open>2 ^ e \<le> x < 2 ^ (e + 1)\<close> the binary64 values around \<open>x\<close> are the multiples of
  \<open>2 ^ (e - 52)\<close>. \<open>bits n\<close> is the length of the binary numeral of \<open>n\<close>, \<open>exponent x\<close> is
  that \<open>e\<close>, and \<open>binary64 x\<close> is the rounded value. Overflow and subnormal numbers are left
  out: they do not occur for clock readings and capacities below \<open>2 ^ 53\<close>.
\<close>

function bits :: "int \<Rightarrow> int" where
  "bits n = (if n \<le> 0 then 0 else bits (n div 2) + 1)"
  by pat_completeness auto
termination
  by (relation "measure nat") auto

declare bits.simps [simp del]

definition pow2 :: "int \<Rightarrow> rat" where
  "pow2 e = (if 0 \<le> e then 2 ^ nat e else 1 / 2 ^ nat (- e))"

definition exponent :: "rat \<Rightarrow> int" where
  "exponent x =
     (let d = bits (fst (quotient_of x)) - bits (snd (quotient_of x))
      in if pow2 d \<le> x then d else d - 1)"

definition roundEven :: "rat \<Rightarrow> int" where
  "roundEven x =
     (let f = \<lfloor>x\<rfloor>; r = x - of_int f
      in if r < 1 / 2 then f else if 1 / 2 < r then f + 1 else if even f then f else f + 1)"

definition binary64 :: "rat \<Rightarrow> rat" where
  "binary64 x =
     (if x = 0 then 0
      else (let u = pow2 (exponent \<bar>x\<bar> - 52)
            in sgn x * of_int (roundEven (\<bar>x\<bar> / u)) * u))"

text \<open>
  \<^verbatim>\<open>Math.floor(timePassed / (60 * 1000) * this.maxTokens)\<close> as the code evaluates it: the
  division first, then the product, each rounded; \<^verbatim>\<open>60 * 1000\<close> and the integers are exact.
\<close>

definition jsRefillAmount :: "int \<Rightarrow> int \<Rightarrow> int" where
  "jsRefillAmount timePassed capacity =
     \<lfloor>binary64 (binary64 (of_int timePassed / 60000) * of_int capacity)\<rfloor>"

text \<open>The five statements of the refill with this amount.\<close>

definition jsRefill :: "'a bucket_scheme \<Rightarrow> 'a bucket_scheme" where
  "jsRefill s =
     s\<lparr> tokens := min (maxTokens s)
                       (tokens s + jsRefillAmount (clock s - lastRefill s) (maxTokens s)),
        lastRefill := clock s \<rparr>"

section \<open>A caller that awaits: the invoker, the drivers and the searches\<close>

text \<open>
  A JavaScript string is the list of its UTF-16 code units. An embedding is the vector the
  provider returns; the code never looks inside it.
\<close>

type_synonym jsstring = "nat list"

type_synonym embedding = "int list"

text \<open>
  The services the program calls. Each is a function of the number of calls made to it
  so far and of the request, so that the same request can fail once and succeed later.
  A rejected promise is \<open>Inl\<close>.
  \<^item> \<open>embeddings_create\<close>: \<^verbatim>\<open>openai.embeddings.create\<close>, giving \<^verbatim>\<open>data[0].embedding\<close>;
  \<^item> \<open>chat_create\<close>: \<^verbatim>\<open>openai.chat.completions.create\<close> on the documents' contents and
    the query, giving \<^verbatim>\<open>choices[0].message.content\<close>;
  \<^item> \<open>documents_insert\<close>: \<^verbatim>\<open>supabase.from('documents').insert(...).select()\<close>, giving
    \<^verbatim>\<open>{ error }\<close> or the ids of the rows of \<^verbatim>\<open>{ data }\<close>;
  \<^item> \<open>match_movies\<close>: \<^verbatim>\<open>supabase.rpc('match_movies', ...)\<close>, giving \<^verbatim>\<open>{ error }\<close> or the
    contents of the rows (\<open>None\<close> for a null \<^verbatim>\<open>data\<close>);
  \<^item> \<open>movies_select\<close>: the contents of the rows of
    \<^verbatim>\<open>supabase.from('movies').select('content').limit(1)\<close> (\<open>None\<close> for null);
  \<^item> \<open>movies_chunks\<close>: \<^verbatim>\<open>fetch('movies.txt')\<close>, \<^verbatim>\<open>response.text()\<close> and
    \<^verbatim>\<open>splitMovieData\<close> together, giving the \<^verbatim>\<open>pageContent\<close> of each chunk;
  \<^item> \<open>movies_insert\<close>: the \<^verbatim>\<open>error\<close> of \<^verbatim>\<open>supabase.from('movies').insert(data)\<close>.
\<close>

record env =
  embeddings_create :: "nat \<Rightarrow> jsstring \<Rightarrow> error + embedding"
  chat_create :: "nat \<Rightarrow> jsstring list \<Rightarrow> jsstring \<Rightarrow> error + jsstring"
  documents_insert :: "nat \<Rightarrow> jsstring \<Rightarrow> embedding \<Rightarrow> error + nat list"
  match_movies :: "nat \<Rightarrow> embedding \<Rightarrow> nat \<Rightarrow> error + jsstring list option"
  movies_select :: "jsstring list option"
  movies_chunks :: "error + jsstring list"
  movies_insert :: "(jsstring \<times> embedding) list \<Rightarrow> error option"

text \<open>
  What a caller does that the outside can see, in the order it does it: an
  \<^verbatim>\<open>await rateLimiter.waitForToken()\<close> that returned (with the number of its request), an
  outbound call, an \<^verbatim>\<open>await delay(ms)\<close> of its own, a line on the console (the fixed
  text, the numbers interpolated into it, and the error object for \<^verbatim>\<open>console.error\<close>).
\<close>

datatype action =
    Token nat
  | Create jsstring
  | Chat jsstring
  | Insert jsstring
  | Rpc nat
  | InsertAll "jsstring list"
  | Delay int
  | ConsoleLog string "nat list"
  | ConsoleError string "nat list" error

text \<open>
  The constant \<^verbatim>\<open>rateLimiter\<close> that the functions below call. In index.js it is
  \<^verbatim>\<open>const rateLimiter = new RateLimiter(3)\<close> of the class without a queue, which
  \<^verbatim>\<open>getEmbeddingWithRetry\<close>, \<^verbatim>\<open>generateChatResponse\<close> and \<^verbatim>\<open>storeEmbeddings\<close> of that file
  use. The movie processor and search.js import \<^verbatim>\<open>export const rateLimiter\<close> of
  rateLimiter.js, of the class with a queue; so does the later copy of index.js, whose
  three functions have the same text.
\<close>

datatype rateLimiter = Queued sched | Direct direct

text \<open>
  The state of a caller: the limiter it shares with the other callers, what it has done
  so far, and how many calls each service has received. \<open>newApp\<close> starts with the limiter
  of rateLimiter.js and \<open>newIndexApp\<close> with the limiter of index.js.
\<close>

record app =
  limiter :: rateLimiter
  trace :: "action list"
  creates :: nat
  chats :: nat
  inserts :: nat
  rpcs :: nat

definition newApp :: "int \<Rightarrow> int \<Rightarrow> app" where
  "newApp tokensPerMinute now =
     \<lparr> limiter = Queued (RateLimiter tokensPerMinute now), trace = [], creates = 0, chats = 0,
       inserts = 0, rpcs = 0 \<rparr>"

definition newIndexApp :: "int \<Rightarrow> int \<Rightarrow> app" where
  "newIndexApp tokensPerMinute now =
     \<lparr> limiter = Direct (DirectLimiter tokensPerMinute now), trace = [], creates = 0, chats = 0,
       inserts = 0, rpcs = 0 \<rparr>"

definition emit :: "action \<Rightarrow> app \<Rightarrow> app" where
  "emit x a = a\<lparr> trace := trace a @ [x] \<rparr>"

text \<open>
  \<^verbatim>\<open>const delay = ms => new Promise(resolve => setTimeout(resolve, ms));\<close> awaited by a
  caller: the caller goes on when the clock has advanced by \<open>ms\<close>. Timers fire when they
  are due in this part of the model.
\<close>

fun advance :: "int \<Rightarrow> rateLimiter \<Rightarrow> rateLimiter" where
  "advance ms (Queued s) = Queued (s\<lparr> clock := clock s + ms \<rparr>)"
| "advance ms (Direct s) = Direct (s\<lparr> clock := clock s + ms \<rparr>)"

definition delay :: "int \<Rightarrow> app \<Rightarrow> app" where
  "delay ms a = emit (Delay ms) (a\<lparr> limiter := advance ms (limiter a) \<rparr>)"

text \<open>
  The settlement of request \<open>r\<close>, if \<^verbatim>\<open>resolve\<close> or \<^verbatim>\<open>reject\<close> has been called for it.
\<close>

definition settlementOf :: "nat \<Rightarrow> sched \<Rightarrow> settlement option" where
  "settlementOf r s = map_option fst (map_of (settled s) r)"

text \<open>
  \<^verbatim>\<open>await request\<close> on the limiter with a queue, for a caller that is alone with the
  limiter: while the promise is pending, the only thing that can happen is that the timer
  of \<^verbatim>\<open>processQueue\<close> comes due and fires. With no timer pending the promise stays pending
  for ever, which is \<open>None\<close>. A rejected promise makes the \<^verbatim>\<open>await\<close> throw.
\<close>

partial_function (option) awaitRequest :: "nat \<Rightarrow> sched \<Rightarrow> (error + sched) option" where
  "awaitRequest r s =
     (case settlementOf r s of
        Some (Resolved v) \<Rightarrow> Some (Inr s)
      | Some (Rejected e) \<Rightarrow> Some (Inl e)
      | None \<Rightarrow>
          (case timer s of
             None \<Rightarrow> None
           | Some due \<Rightarrow>
               (case step Wake (s\<lparr> clock := max (clock s) due \<rparr>) of
                  Inl e \<Rightarrow> Some (Inl e)
                | Inr s' \<Rightarrow> awaitRequest r s')))"

declare awaitRequest.simps [code]

text \<open>
  The same on the limiter without a queue: the promise of call \<open>r\<close> is pending while the
  call sleeps, and the only thing that can happen is that its timer comes due and fires.
  Nothing in this class rejects.
\<close>

partial_function (option) awaitCall :: "nat \<Rightarrow> direct \<Rightarrow> direct option" where
  "awaitCall r s =
     (case map_of (returned s) r of
        Some v \<Rightarrow> Some s
      | None \<Rightarrow>
          (case map_of (sleeping s) r of
             None \<Rightarrow> None
           | Some due \<Rightarrow> awaitCall r (directStep (Fire r) (s\<lparr> clock := max (clock s) due \<rparr>))))"

declare awaitCall.simps [code]

text \<open>\<^verbatim>\<open>await rateLimiter.waitForToken();\<close>\<close>

definition acquire :: "app \<Rightarrow> (error + app) option" where
  "acquire a =
     (case limiter a of
        Queued s \<Rightarrow>
          (let r = nextReq s in
           case waitForToken s of
             Inl e \<Rightarrow> Some (Inl e)
           | Inr s1 \<Rightarrow>
               (case awaitRequest r s1 of
                  None \<Rightarrow> None
                | Some (Inl e) \<Rightarrow> Some (Inl e)
                | Some (Inr s2) \<Rightarrow> Some (Inr (emit (Token r) (a\<lparr> limiter := Queued s2 \<rparr>)))))
      | Direct s \<Rightarrow>
          (let r = callers s in
           case awaitCall r (directStep Call s) of
             None \<Rightarrow> None
           | Some s2 \<Rightarrow> Some (Inr (emit (Token r) (a\<lparr> limiter := Direct s2 \<rparr>)))))"

subsection \<open>getEmbeddingWithRetry and createEmbeddingWithRetry\<close>

text \<open>
  \<^verbatim>\<open>
  async function getEmbeddingWithRetry(textChunk, retries = 3) {
    for (let i = 0; i < retries; i++) {
      try {
        await rateLimiter.waitForToken();
        const embeddingResponse = await openai.embeddings.create({
          model: "text-embedding-ada-002", input: textChunk });
        return embeddingResponse.data[0].embedding;
      } catch (error) {
        console.error('Embedding error:', error);
        if (error.status === 429) {
          console.log(`Rate limited, waiting 25 seconds before retry ${i + 1}/${retries}`);
          await delay(25000);
          continue;
        }
        throw error;
      }
    }
    throw new Error('Max retries reached for embedding generation');
  }
  \<close>
  \<open>embed\<close> is the body of the \<^verbatim>\<open>try\<close> block; \<open>retryLoop\<close> is the \<^verbatim>\<open>for\<close> loop from the
  value \<open>i\<close> of its counter on, with the \<^verbatim>\<open>catch\<close> block and the final \<^verbatim>\<open>throw\<close>.
\<close>

definition embed :: "env \<Rightarrow> jsstring \<Rightarrow> app \<Rightarrow> ((error + embedding) \<times> app) option" where
  "embed env textChunk a =
     (case acquire a of
        None \<Rightarrow> None
      | Some (Inl e) \<Rightarrow> Some (Inl e, a)
      | Some (Inr a1) \<Rightarrow>
          Some (embeddings_create env (creates a1) textChunk,
                emit (Create textChunk) (a1\<lparr> creates := Suc (creates a1) \<rparr>)))"

definition maxRetriesError :: error where
  "maxRetriesError = Error None ''Max retries reached for embedding generation''"

function retryLoop :: "env \<Rightarrow> jsstring \<Rightarrow> nat \<Rightarrow> nat \<Rightarrow> app \<Rightarrow> ((error + embedding) \<times> app) option" where
  "retryLoop env textChunk retries i a =
     (if i < retries then
        (case embed env textChunk a of
           None \<Rightarrow> None
         | Some (Inr embedding, a1) \<Rightarrow> Some (Inr embedding, a1)
         | Some (Inl e, a1) \<Rightarrow>
             (let a2 = emit (ConsoleError ''Embedding error:'' [] e) a1 in
              if status e = Some 429 then
                retryLoop env textChunk retries (Suc i)
                  (delay 25000
                     (emit (ConsoleLog ''Rate limited, waiting 25 seconds before retry''
                              [i + 1, retries]) a2))
              else Some (Inl e, a2)))
      else Some (Inl maxRetriesError, a))"
  by pat_completeness auto
termination
  by (relation "measure (\<lambda>(env, textChunk, retries, i, a). retries - i)") auto

declare retryLoop.simps [simp del]

definition getEmbeddingWithRetry :: "env \<Rightarrow> jsstring \<Rightarrow> nat \<Rightarrow> app \<Rightarrow> ((error + embedding) \<times> app) option" where
  "getEmbeddingWithRetry env textChunk retries a = retryLoop env textChunk retries 0 a"

text \<open>
  \<^verbatim>\<open>createEmbeddingWithRetry(chunk, retries = 3)\<close> of the movie processor is the same
  loop, statement by statement, on \<^verbatim>\<open>chunk.pageContent\<close>; it returns
  \<^verbatim>\<open>{ content: chunk.pageContent, embedding: ... }\<close>.
\<close>

definition createEmbeddingWithRetry :: "env \<Rightarrow> jsstring \<Rightarrow> nat \<Rightarrow> app \<Rightarrow> ((error + jsstring \<times> embedding) \<times> app) option" where
  "createEmbeddingWithRetry env chunk retries a =
     (case retryLoop env chunk retries 0 a of
        None \<Rightarrow> None
      | Some (Inl e, a1) \<Rightarrow> Some (Inl e, a1)
      | Some (Inr embedding, a1) \<Rightarrow> Some (Inr (chunk, embedding), a1))"

subsection \<open>storeEmbeddings\<close>

text \<open>
  \<^verbatim>\<open>
  async function storeEmbeddings(documents) {
    console.log('Starting to store embeddings...');
    for (let i = 0; i < documents.length; i++) {
      const text = documents[i];
      try {
        const embedding = await getEmbeddingWithRetry(text);
        console.log(`Generated embedding for document ${i + 1}/${documents.length}`);
        const { data, error } = await supabase
          .from('documents').insert([{ content: text, embedding }]).select();
        if (error) {
          console.error('Error storing embedding:', error);
          continue;
        }
        console.log(`Stored document ${i + 1} with ID:`, data[0].id);
        await delay(1000);
      } catch (error) {
        console.error(`Failed to process document ${i + 1}:`, error);
      }
    }
    console.log('Finished storing embeddings');
  }
  \<close>
  \<open>storeDocument\<close> is one turn of the loop: the \<^verbatim>\<open>try\<close> statement for
  \<open>text = documents[i]\<close>, with \<open>n\<close> for \<^verbatim>\<open>documents.length\<close>. With no row in \<^verbatim>\<open>data\<close>,
  \<^verbatim>\<open>data[0].id\<close> throws a TypeError inside the \<^verbatim>\<open>try\<close> block.
\<close>

definition storeDocument :: "env \<Rightarrow> nat \<Rightarrow> nat \<Rightarrow> jsstring \<Rightarrow> app \<Rightarrow> app option" where
  "storeDocument env n i text a =
     (case getEmbeddingWithRetry env text 3 a of
        None \<Rightarrow> None
      | Some (Inl e, a1) \<Rightarrow>
          Some (emit (ConsoleError ''Failed to process document'' [i + 1] e) a1)
      | Some (Inr embedding, a1) \<Rightarrow>
          (let a2 = emit (ConsoleLog ''Generated embedding for document'' [i + 1, n]) a1;
               a3 = emit (Insert text) (a2\<lparr> inserts := Suc (inserts a2) \<rparr>)
           in case documents_insert env (inserts a2) text embedding of
                Inl error \<Rightarrow> Some (emit (ConsoleError ''Error storing embedding:'' [] error) a3)
              | Inr [] \<Rightarrow>
                  Some (emit (ConsoleError ''Failed to process document'' [i + 1] TypeError) a3)
              | Inr (rowId # _) \<Rightarrow>
                  Some (delay 1000
                          (emit (ConsoleLog ''Stored document with ID:'' [i + 1, rowId]) a3))))"

function storeLoop :: "env \<Rightarrow> jsstring list \<Rightarrow> nat \<Rightarrow> app \<Rightarrow> app option" where
  "storeLoop env documents i a =
     (if i < length documents then
        (case storeDocument env (length documents) i (documents ! i) a of
           None \<Rightarrow> None
         | Some a1 \<Rightarrow> storeLoop env documents (Suc i) a1)
      else Some a)"
  by pat_completeness auto
termination
  by (relation "measure (\<lambda>(env, documents, i, a). length documents - i)") auto

declare storeLoop.simps [simp del]

definition storeEmbeddings :: "env \<Rightarrow> jsstring list \<Rightarrow> app \<Rightarrow> app option" where
  "storeEmbeddings env documents a =
     (case storeLoop env documents 0 (emit (ConsoleLog ''Starting to store embeddings...'' []) a) of
        None \<Rightarrow> None
      | Some a1 \<Rightarrow> Some (emit (ConsoleLog ''Finished storing embeddings'' []) a1))"

subsection \<open>processAndStoreMovies\<close>

text \<open>
  \<^verbatim>\<open>
  const data = [];
  for (const chunk of chunks) {
    try {
      const embeddingData = await createEmbeddingWithRetry(chunk);
      data.push(embeddingData);
      console.log(`Processed chunk ${data.length}/${chunks.length}`);
    } catch (error) {
      console.error('Error processing chunk:', error);
      continue;
    }
  }
  \<close>
  \<open>n\<close> is \<^verbatim>\<open>chunks.length\<close>.
\<close>

fun chunkLoop :: "env \<Rightarrow> nat \<Rightarrow> jsstring list \<Rightarrow> (jsstring \<times> embedding) list \<Rightarrow> app \<Rightarrow> ((jsstring \<times> embedding) list \<times> app) option" where
  "chunkLoop env n [] data a = Some (data, a)"
| "chunkLoop env n (chunk # chunks) data a =
     (case createEmbeddingWithRetry env chunk 3 a of
        None \<Rightarrow> None
      | Some (Inr embeddingData, a1) \<Rightarrow>
          chunkLoop env n chunks (data @ [embeddingData])
            (emit (ConsoleLog ''Processed chunk'' [length data + 1, n]) a1)
      | Some (Inl e, a1) \<Rightarrow>
          chunkLoop env n chunks data (emit (ConsoleError ''Error processing chunk:'' [] e) a1))"

text \<open>
  \<^verbatim>\<open>
  async function processAndStoreMovies() {
    try {
      console.log('Starting movie processing...');
      const { data: existingMovies } = await supabase.from('movies').select('content').limit(1);
      if (existingMovies?.length > 0) {
        console.log('Movies already processed');
        return existingMovies;
      }
      const response = await fetch('movies.txt');
      const text = await response.text();
      const chunks = await splitMovieData(text);
      console.log('Creating embeddings...');
      ... the loop ...
      console.log('Storing in Supabase...');
      const { error } = await supabase.from('movies').insert(data);
      if (error) throw error;
      console.log(`Successfully processed ${data.length} movies`);
      return data;
    } catch (error) {
      console.error('Error in processAndStoreMovies:', error);
      throw error;
    }
  }
  \<close>
\<close>

datatype movies = Existing "jsstring list" | Processed "(jsstring \<times> embedding) list"

definition rethrow :: "string \<Rightarrow> error \<Rightarrow> app \<Rightarrow> ((error + 'a) \<times> app) option" where
  "rethrow msg e a = Some (Inl e, emit (ConsoleError msg [] e) a)"

definition existingRows :: "jsstring list option \<Rightarrow> jsstring list" where
  "existingRows existingMovies = (case existingMovies of None \<Rightarrow> [] | Some rows \<Rightarrow> rows)"

definition processAndStoreMovies :: "env \<Rightarrow> app \<Rightarrow> ((error + movies) \<times> app) option" where
  "processAndStoreMovies env a =
     (let a1 = emit (ConsoleLog ''Starting movie processing...'' []) a in
      if length (existingRows (movies_select env)) > 0 then
        Some (Inr (Existing (existingRows (movies_select env))),
              emit (ConsoleLog ''Movies already processed'' []) a1)
      else
        (case movies_chunks env of
           Inl e \<Rightarrow> rethrow ''Error in processAndStoreMovies:'' e a1
         | Inr chunks \<Rightarrow>
             (case chunkLoop env (length chunks) chunks []
                     (emit (ConsoleLog ''Creating embeddings...'' []) a1) of
                None \<Rightarrow> None
              | Some (data, a2) \<Rightarrow>
                  (let a3 = emit (InsertAll (map fst data))
                              (emit (ConsoleLog ''Storing in Supabase...'' []) a2)
                   in case movies_insert env data of
                        Some error \<Rightarrow> rethrow ''Error in processAndStoreMovies:'' error a3
                      | None \<Rightarrow>
                          Some (Inr (Processed data),
                                emit (ConsoleLog ''Successfully processed movies'' [length data]) a3)))))"

subsection \<open>generateChatResponse and generateMovieResponse\<close>


definition generateMovieResponse :: "env \<Rightarrow> jsstring list \<Rightarrow> jsstring \<Rightarrow> app \<Rightarrow> ((error + jsstring) \<times> app) option" where
  "generateMovieResponse env movies query a =
     (case acquire a of
        None \<Rightarrow> None
      | Some (Inl e) \<Rightarrow> rethrow ''Movie chat completion error:'' e a
      | Some (Inr a1) \<Rightarrow>
          (let a2 = emit (Chat query) (a1\<lparr> chats := Suc (chats a1) \<rparr>) in
           case chat_create env (chats a1) movies query of
             Inl e \<Rightarrow> rethrow ''Movie chat completion error:'' e a2
           | Inr content \<Rightarrow> Some (Inr content, a2)))"

subsection \<open>searchMovies\<close>

text \<open>
  \<^verbatim>\<open>String.prototype.trim\<close> removes white space and line terminators from both ends.
  These are the code points of ECMAScript's WhiteSpace and LineTerminator productions.
\<close>

definition isWhiteSpace :: "nat \<Rightarrow> bool" where
  "isWhiteSpace c \<longleftrightarrow>
     c \<in> {0x09, 0x0A, 0x0B, 0x0C, 0x0D, 0x20, 0xA0, 0x1680, 0x2028, 0x2029, 0x202F, 0x205F,
          0x3000, 0xFEFF} \<or> (0x2000 \<le> c \<and> c \<le> 0x200A)"

definition trim :: "jsstring \<Rightarrow> jsstring" where
  "trim q = rev (dropWhile isWhiteSpace (rev (dropWhile isWhiteSpace q)))"

text \<open>
  \<^verbatim>\<open>
  async function searchMovies(query, limit = 3) {
    if (!query?.trim()) {
      throw new Error('Search query is required');
    }
    try {
      await rateLimiter.waitForToken();
      const embedding = await openai.embeddings.create({
        model: "text-embedding-ada-002", input: query });
      const { data: similarMovies, error } = await supabase.rpc('match_movies', {
          query_embedding: embedding.data[0].embedding, match_threshold: 0.5, match_count: limit });
      if (error) {
        console.error('Supabase search error:', error);
        throw new Error('Failed to search movies');
      }
      if (!similarMovies?.length) {
        return { movies: [],
                 response: "I couldn't find any movies matching your query. Try a different search term." };
      }
      const chatResponse = await generateMovieResponse(similarMovies, query);
      return { movies: similarMovies, response: chatResponse };
    } catch (error) {
      console.error('Search error:', error);
      throw error;
    }
  }
  \<close>
  A query that is \<^verbatim>\<open>undefined\<close> or \<^verbatim>\<open>null\<close> is \<open>None\<close>. \<open>searchBody\<close> is the \<^verbatim>\<open>try\<close> block.
\<close>

definition lit :: "string \<Rightarrow> jsstring" where
  "lit cs = map of_char cs"

definition noMovies :: jsstring where
  "noMovies = lit ''I couldn't find any movies matching your query. Try a different search term.''"

definition searchBody :: "env \<Rightarrow> jsstring \<Rightarrow> nat \<Rightarrow> app \<Rightarrow> ((error + jsstring list \<times> jsstring) \<times> app) option" where
  "searchBody env query limit a =
     (case acquire a of
        None \<Rightarrow> None
      | Some (Inl e) \<Rightarrow> Some (Inl e, a)
      | Some (Inr a1) \<Rightarrow>
          (let a2 = emit (Create query) (a1\<lparr> creates := Suc (creates a1) \<rparr>) in
           case embeddings_create env (creates a1) query of
             Inl e \<Rightarrow> Some (Inl e, a2)
           | Inr embedding \<Rightarrow>
               (let a3 = emit (Rpc limit) (a2\<lparr> rpcs := Suc (rpcs a2) \<rparr>) in
                case match_movies env (rpcs a2) embedding limit of
                  Inl error \<Rightarrow>
                    Some (Inl (Error None ''Failed to search movies''),
                          emit (ConsoleError ''Supabase search error:'' [] error) a3)
                | Inr similarMovies \<Rightarrow>
                    if length (existingRows similarMovies) = 0 then Some (Inr ([], noMovies), a3)
                    else
                      (case generateMovieResponse env (existingRows similarMovies) query a3 of
                         None \<Rightarrow> None
                       | Some (Inl e, a4) \<Rightarrow> Some (Inl e, a4)
                       | Some (Inr chatResponse, a4) \<Rightarrow>
                           Some (Inr (existingRows similarMovies, chatResponse), a4)))))"

definition searchMovies :: "env \<Rightarrow> jsstring option \<Rightarrow> nat \<Rightarrow> app \<Rightarrow> ((error + jsstring list \<times> jsstring) \<times> app) option" where
  "searchMovies env query limit a =
     (case query of
        None \<Rightarrow> Some (Inl (Error None ''Search query is required''), a)
      | Some q \<Rightarrow>
          if trim q = [] then Some (Inl (Error None ''Search query is required''), a)
          else
            (case searchBody env q limit a of
               None \<Rightarrow> None
             | Some (Inl e, a1) \<Rightarrow> rethrow ''Search error:'' e a1
             | Some (Inr result, a1) \<Rightarrow> Some (Inr result, a1)))"

section \<open>Some environments\<close>

text \<open>
  Concrete services to run the program against: one whose embedding and chat endpoints
  always answer 429, one whose embedding endpoint answers 429 to its first two calls, and
  one whose embedding endpoint answers 429 whenever the text is \<open>[51]\<close>; the last one
  with three chunks in movies.txt, and with two chunks and a table \<^verbatim>\<open>movies\<close> that
  refuses the insert.
\<close>

definition tooManyRequests :: error where
  "tooManyRequests = Error (Some 429) ''Too Many Requests''"

definition alwaysThrottled :: env where
  "alwaysThrottled =
     \<lparr> embeddings_create = (\<lambda>k t. Inl tooManyRequests),
       chat_create = (\<lambda>k d q. Inl tooManyRequests),
       documents_insert = (\<lambda>k t e. Inr [k]),
       match_movies = (\<lambda>k e n. Inr None),
       movies_select = None,
       movies_chunks = Inr [],
       movies_insert = (\<lambda>d. None) \<rparr>"

definition throttledTwice :: env where
  "throttledTwice =
     alwaysThrottled\<lparr> embeddings_create := (\<lambda>k t. if k < 2 then Inl tooManyRequests else Inr [int k]) \<rparr>"

definition throttledOn51 :: env where
  "throttledOn51 =
     alwaysThrottled\<lparr> embeddings_create := (\<lambda>k t. if t = [51] then Inl tooManyRequests else Inr [int k]) \<rparr>"

definition movieChunks :: env where
  "movieChunks = throttledOn51\<lparr> movies_chunks := Inr [[49], [51], [53]] \<rparr>"

definition storageError :: error where
  "storageError = Error None ''insert failed''"

definition storageDown :: env where
  "storageDown =
     throttledOn51\<lparr> movies_chunks := Inr [[49], [50]], movies_insert := (\<lambda>data. Some storageError) \<rparr>"

section \<open>Properties of the limiter's states\<close>

text \<open>The token count is within the capacity \<open>C\<close>, and the last refill is not in the future.\<close>

definition bounded :: "int \<Rightarrow> 'a bucket_scheme \<Rightarrow> bool" where
  "bounded C s \<longleftrightarrow>
     maxTokens s = C \<and> 0 \<le> tokens s \<and> tokens s \<le> C \<and> lastRefill s \<le> clock s"

text \<open>
  The requests resolved so far, in the order of their resolution, followed by the
  requests still queued, are the requests in the order of their arrival.
\<close>

definition fifo :: "sched \<Rightarrow> bool" where
  "fifo s \<longleftrightarrow> map fst (settled s) @ waitQueue s = [0..<nextReq s]"

text \<open>Between two events the loop of \<^verbatim>\<open>processQueue\<close> sleeps exactly when a request is queued.\<close>

definition alive :: "sched \<Rightarrow> bool" where
  "alive s \<longleftrightarrow> (waitQueue s = [] \<longleftrightarrow> timer s = None)"

text \<open>
  The budget of a limiter of capacity \<open>C\<close> constructed at \<open>t0\<close>: the tokens handed out and
  the tokens in the bucket never exceed \<open>C\<close> plus what the time since \<open>t0\<close> has earned,
  and the grant number \<open>i + 1\<close> happened when the clock had earned it.
\<close>

definition paced :: "int \<Rightarrow> int \<Rightarrow> sched \<Rightarrow> bool" where
  "paced C t0 s \<longleftrightarrow>
     maxTokens s = C \<and>
     (int (length (settled s)) + tokens s - C) * 60000 \<le> (lastRefill s - t0) * C \<and>
     (\<forall>i<length (settled s). (int i + 1 - C) * 60000 \<le> (snd (snd (settled s ! i)) - t0) * C)"

text \<open>Every promise settled so far was resolved with \<^verbatim>\<open>true\<close>.\<close>

definition truthful :: "sched \<Rightarrow> bool" where
  "truthful s \<longleftrightarrow> (\<forall>x\<in>set (settled s). fst (snd x) = Resolved True)"

text \<open>The clock readings of the resolutions increase and are not in the future.\<close>

definition timed :: "sched \<Rightarrow> bool" where
  "timed s \<longleftrightarrow>
     sorted (map (\<lambda>x. snd (snd x)) (settled s)) \<and> (\<forall>x\<in>set (settled s). snd (snd x) \<le> clock s)"

text \<open>
  A limiter of positive capacity \<open>C\<close> that nobody is waiting for: what a caller finds when
  it is alone with the limiter.
\<close>

definition idle :: "int \<Rightarrow> sched \<Rightarrow> bool" where
  "idle C s \<longleftrightarrow> 0 < C \<and> waitQueue s = [] \<and> timer s = None \<and> bounded C s \<and> fifo s \<and> truthful s"

text \<open>The provider answers call number \<open>k\<close> for this text with an error of status 429.\<close>

definition throttled :: "env \<Rightarrow> jsstring \<Rightarrow> nat \<Rightarrow> bool" where
  "throttled env textChunk k =
     (case embeddings_create env k textChunk of Inl e \<Rightarrow> status e = Some 429 | Inr _ \<Rightarrow> False)"

text \<open>The awaited acquisitions of a token and the outbound embedding calls of a trace.\<close>

fun tokenOrCreate :: "action \<Rightarrow> bool" where
  "tokenOrCreate (Token r) = True"
| "tokenOrCreate (Create t) = True"
| "tokenOrCreate _ = False"

text \<open>
  What \<^verbatim>\<open>getEmbeddingWithRetry\<close> and \<^verbatim>\<open>createEmbeddingWithRetry\<close> can add to the trace when
  called for this text.
\<close>

fun fromInvoker :: "jsstring \<Rightarrow> action \<Rightarrow> bool" where
  "fromInvoker t (Token r) = True"
| "fromInvoker t (Create u) = (u = t)"
| "fromInvoker t (Delay ms) = (ms = 25000)"
| "fromInvoker t (ConsoleLog msg ns) = (msg = ''Rate limited, waiting 25 seconds before retry'')"
| "fromInvoker t (ConsoleError msg ns e) = (msg = ''Embedding error:'')"
| "fromInvoker t _ = False"

text \<open>The \<^verbatim>\<open>catch\<close> block on an error of status 429: two lines on the console and the cooldown.\<close>

definition cooled :: "error \<Rightarrow> nat \<Rightarrow> nat \<Rightarrow> app \<Rightarrow> app" where
  "cooled e i retries a1 =
     delay 25000
       (emit (ConsoleLog ''Rate limited, waiting 25 seconds before retry'' [i + 1, retries])
          (emit (ConsoleError ''Embedding error:'' [] e) a1))"

text \<open>The texts of the outbound embedding calls of a trace, and the texts handed to storage.\<close>

fun created :: "action list \<Rightarrow> jsstring list" where
  "created [] = []"
| "created (Create t # xs) = t # created xs"
| "created (x # xs) = created xs"

fun inserted :: "action list \<Rightarrow> jsstring list" where
  "inserted [] = []"
| "inserted (Insert t # xs) = t # inserted xs"
| "inserted (x # xs) = inserted xs"

text \<open>
  The line that ends a turn of the loop of \<^verbatim>\<open>storeEmbeddings\<close>: the document was stored, or
  storage reported an error, or the \<^verbatim>\<open>catch\<close> block logged a failure. \<open>lineOf i\<close> says that
  such a line belongs to \<^verbatim>\<open>documents[i]\<close>.
\<close>

fun isItemLine :: "action \<Rightarrow> bool" where
  "isItemLine (ConsoleLog msg ns) = (msg = ''Stored document with ID:'')"
| "isItemLine (ConsoleError msg ns e) =
     (msg = ''Failed to process document'' \<or> msg = ''Error storing embedding:'')"
| "isItemLine _ = False"

fun lineOf :: "nat \<Rightarrow> action \<Rightarrow> bool" where
  "lineOf i (ConsoleLog msg ns) = (msg = ''Stored document with ID:'' \<and> length ns = 2 \<and> hd ns = i + 1)"
| "lineOf i (ConsoleError msg ns e) =
     (msg = ''Failed to process document'' \<and> ns = [i + 1] \<or>
      msg = ''Error storing embedding:'' \<and> ns = [])"
| "lineOf i _ = False"

text \<open>The same for the loop of \<^verbatim>\<open>processAndStoreMovies\<close>.\<close>

fun isChunkLine :: "action \<Rightarrow> bool" where
  "isChunkLine (ConsoleLog msg ns) = (msg = ''Processed chunk'')"
| "isChunkLine (ConsoleError msg ns e) = (msg = ''Error processing chunk:'')"
| "isChunkLine _ = False"

text \<open>
  For the limiter without a queue: the budget, as \<open>paced\<close> above; and the bookkeeping of
  its calls, each of which either sleeps on one timer or has returned once, with \<^verbatim>\<open>true\<close>.
\<close>

definition directPaced :: "int \<Rightarrow> int \<Rightarrow> direct \<Rightarrow> bool" where
  "directPaced C t0 s \<longleftrightarrow>
     maxTokens s = C \<and>
     (int (length (returned s)) + tokens s - C) * 60000 \<le> (lastRefill s - t0) * C \<and>
     (\<forall>i<length (returned s). (int i + 1 - C) * 60000 \<le> (snd (snd (returned s ! i)) - t0) * C)"

definition directTidy :: "direct \<Rightarrow> bool" where
  "directTidy s \<longleftrightarrow>
     distinct (map fst (sleeping s) @ map fst (returned s)) \<and>
     set (map fst (sleeping s)) \<union> set (map fst (returned s)) = {0..<callers s} \<and>
     (\<forall>x\<in>set (returned s). fst (snd x) = True)"

text \<open>
  The limiter without a queue when no call is sleeping, and either limiter when nobody is
  waiting for it: what a caller finds when it is alone with \<^verbatim>\<open>rateLimiter\<close>.
\<close>

definition directIdle :: "int \<Rightarrow> direct \<Rightarrow> bool" where
  "directIdle C s \<longleftrightarrow> 0 < C \<and> sleeping s = [] \<and> bounded C s \<and> directTidy s"

fun ready :: "int \<Rightarrow> rateLimiter \<Rightarrow> bool" where
  "ready C (Queued s) = idle C s"
| "ready C (Direct s) = directIdle C s"

text \<open>
  What both limiters have: the number of calls of \<^verbatim>\<open>waitForToken\<close> made so far, the clock,
  and the calls whose promise was fulfilled with \<^verbatim>\<open>true\<close>, in the order in which that
  happened.
\<close>

fun calls :: "rateLimiter \<Rightarrow> nat" where
  "calls (Queued s) = nextReq s"
| "calls (Direct s) = callers s"

fun now :: "rateLimiter \<Rightarrow> int" where
  "now (Queued s) = clock s"
| "now (Direct s) = clock s"

fun granted :: "rateLimiter \<Rightarrow> nat list" where
  "granted (Queued s) = map fst (filter (\<lambda>x. fst (snd x) = Resolved True) (settled s))"
| "granted (Direct s) = map fst (filter (\<lambda>x. fst (snd x)) (returned s))"

text \<open>
  The bucket of either limiter, the calls whose promise was fulfilled with \<^verbatim>\<open>true\<close> together
  with the clock reading at which that happened, and what one acquisition by a caller
  that is alone does to the bucket: it refills; if there is a token it takes it; if there
  is none it waits \<open>waitTime\<close> ms, refills again and takes one then.
\<close>

definition snapshot :: "'a bucket_scheme \<Rightarrow> bucket" where
  "snapshot s =
     \<lparr> tokens = tokens s, maxTokens = maxTokens s, lastRefill = lastRefill s, clock = clock s \<rparr>"

fun bucketOf :: "rateLimiter \<Rightarrow> bucket" where
  "bucketOf (Queued s) = snapshot s"
| "bucketOf (Direct s) = snapshot s"

fun grantedAt :: "rateLimiter \<Rightarrow> (nat \<times> int) list" where
  "grantedAt (Queued s) =
     map (\<lambda>x. (fst x, snd (snd x))) (filter (\<lambda>x. fst (snd x) = Resolved True) (settled s))"
| "grantedAt (Direct s) =
     map (\<lambda>x. (fst x, snd (snd x))) (filter (\<lambda>x. fst (snd x)) (returned s))"

definition takeToken :: "bucket \<Rightarrow> bucket" where
  "takeToken b =
     (let b1 = refill b in
      if 1 \<le> tokens b1 then b1\<lparr> tokens := tokens b1 - 1 \<rparr>
      else (let b2 = refill (b1\<lparr> clock := clock b1 + waitTime b1 \<rparr>)
            in b2\<lparr> tokens := tokens b2 - 1 \<rparr>))"

definition took :: "rateLimiter \<Rightarrow> rateLimiter \<Rightarrow> bool" where
  "took l l' \<longleftrightarrow>
     bucketOf l' = takeToken (bucketOf l) \<and> calls l' = Suc (calls l) \<and>
     grantedAt l' = grantedAt l @ [(calls l, now l')]"

text \<open>
  The states of the limiter after each attempt of an invocation: every attempt is one
  acquisition, and between the end of one attempt and the start of the next lies the
  cooldown of 25000 ms.
\<close>

fun acquisitions :: "rateLimiter \<Rightarrow> rateLimiter list \<Rightarrow> bool" where
  "acquisitions l [] = True"
| "acquisitions l (l1 # ls) = (took l l1 \<and> acquisitions (advance 25000 l1) ls)"

text \<open>
  What \<open>k\<close> attempts in a row that the provider answers with status 429 add to the trace,
  when the first of them is turn \<open>i\<close> of the loop, call \<open>r\<close> of \<^verbatim>\<open>waitForToken\<close> and call \<open>c\<close> of
  the provider.
\<close>

definition throttledAttempts :: "env \<Rightarrow> jsstring \<Rightarrow> nat \<Rightarrow> nat \<Rightarrow> nat \<Rightarrow> nat \<Rightarrow> nat \<Rightarrow> action list" where
  "throttledAttempts env textChunk retries i r c k =
     concat (map (\<lambda>j. [Token (r + j), Create textChunk,
                         ConsoleError ''Embedding error:'' []
                           (projl (embeddings_create env (c + j) textChunk)),
                         ConsoleLog ''Rate limited, waiting 25 seconds before retry''
                           [i + j + 1, retries],
                         Delay 25000]) [0..<k])"

text \<open>
  An invocation with three tries that starts at call \<open>c\<close> of the provider: how many calls it
  makes, and what it returns or throws.
\<close>

definition attempts :: "env \<Rightarrow> jsstring \<Rightarrow> nat \<Rightarrow> nat" where
  "attempts env textChunk c =
     (if \<not> throttled env textChunk c then 1
      else if \<not> throttled env textChunk (c + 1) then 2 else 3)"

definition outcome :: "env \<Rightarrow> jsstring \<Rightarrow> nat \<Rightarrow> error + embedding" where
  "outcome env textChunk c =
     (if throttled env textChunk (c + attempts env textChunk c - 1) then Inl maxRetriesError
      else embeddings_create env (c + attempts env textChunk c - 1) textChunk)"

text \<open>
  What the batch drivers are to do, read off the answers of the services alone. For
  \<^verbatim>\<open>storeEmbeddings\<close>, from document \<open>i\<close> on, at call \<open>c\<close> of the provider and call \<open>k\<close> of the
  table: the outbound embedding calls for the document; then, if the invocation failed,
  the line that says so; otherwise the insert and the line that says how it went; then
  the same for the next document.
\<close>

fun storePlan :: "env \<Rightarrow> nat \<Rightarrow> nat \<Rightarrow> nat \<Rightarrow> jsstring list \<Rightarrow> action list" where
  "storePlan env i c k [] = []"
| "storePlan env i c k (text # rest) =
     replicate (attempts env text c) (Create text) @
     (case outcome env text c of
        Inl e \<Rightarrow>
          ConsoleError ''Failed to process document'' [i + 1] e #
          storePlan env (Suc i) (c + attempts env text c) k rest
      | Inr embedding \<Rightarrow>
          Insert text #
          (case documents_insert env k text embedding of
             Inl error \<Rightarrow> ConsoleError ''Error storing embedding:'' [] error
           | Inr [] \<Rightarrow> ConsoleError ''Failed to process document'' [i + 1] TypeError
           | Inr (rowId # _) \<Rightarrow> ConsoleLog ''Stored document with ID:'' [i + 1, rowId]) #
          storePlan env (Suc i) (c + attempts env text c) (Suc k) rest)"

fun storeVisible :: "action \<Rightarrow> bool" where
  "storeVisible (Create t) = True"
| "storeVisible (Insert t) = True"
| "storeVisible x = isItemLine x"

text \<open>
  For \<^verbatim>\<open>processAndStoreMovies\<close>, with \<open>n\<close> chunks in all and \<open>p\<close> of them embedded so far: the
  outbound calls for the chunk and the line that says how its invocation went; and the
  chunks that were embedded, each with its embedding, in input order.
\<close>

fun chunkPlan :: "env \<Rightarrow> nat \<Rightarrow> nat \<Rightarrow> nat \<Rightarrow> jsstring list \<Rightarrow> action list" where
  "chunkPlan env n p c [] = []"
| "chunkPlan env n p c (chunk # rest) =
     replicate (attempts env chunk c) (Create chunk) @
     (case outcome env chunk c of
        Inl e \<Rightarrow>
          ConsoleError ''Error processing chunk:'' [] e #
          chunkPlan env n p (c + attempts env chunk c) rest
      | Inr embedding \<Rightarrow>
          ConsoleLog ''Processed chunk'' [p + 1, n] #
          chunkPlan env n (Suc p) (c + attempts env chunk c) rest)"

fun embedded :: "env \<Rightarrow> nat \<Rightarrow> jsstring list \<Rightarrow> (jsstring \<times> embedding) list" where
  "embedded env c [] = []"
| "embedded env c (chunk # rest) =
     (case outcome env chunk c of Inl e \<Rightarrow> [] | Inr embedding \<Rightarrow> [(chunk, embedding)]) @
     embedded env (c + attempts env chunk c) rest"

fun movieVisible :: "action \<Rightarrow> bool" where
  "movieVisible (Create t) = True"
| "movieVisible (InsertAll ts) = True"
| "movieVisible x = isChunkLine x"

section \<open>The limiter: rules for the loop, the events and the runs\<close>

lemma grant_Cons:
  "waitQueue s = r # rest \<Longrightarrow>
   grant s = Inr (s\<lparr> waitQueue := rest, tokens := tokens s - 1,
                     settled := settled s @ [(r, Resolved True, clock s)] \<rparr>)"
  by (simp add: grant_def)

lemma waitQueue_refill [simp]: "waitQueue (refill s) = waitQueue s"
  by (simp add: refill_def)

lemma processQueue_rule:
  assumes I: "P s"
    and G: "\<And>s r rest. P s \<Longrightarrow> waitQueue s = r # rest \<Longrightarrow> 1 \<le> tokens (refill s) \<Longrightarrow>
              P ((refill s)\<lparr> waitQueue := rest, tokens := tokens (refill s) - 1,
                    settled := settled (refill s) @ [(r, Resolved True, clock (refill s))] \<rparr>)"
    and Z: "\<And>s. P s \<Longrightarrow> waitQueue s \<noteq> [] \<Longrightarrow> tokens (refill s) < 1 \<Longrightarrow> Q (suspend (refill s))"
    and E: "\<And>s. P s \<Longrightarrow> waitQueue s = [] \<Longrightarrow> Q s"
  shows "\<exists>s'. processQueue s = Inr s' \<and> Q s'"
  using I
proof (induction s rule: processQueue.induct)
  case (1 s)
  show ?case
  proof (cases "waitQueue s")
    case Nil
    with E [OF "1.prems"] show ?thesis by (simp add: processQueue.simps)
  next
    case (Cons r rest)
    show ?thesis
    proof (cases "tokens (refill s) < 1")
      case True
      with Z [OF "1.prems"] Cons show ?thesis by (simp add: processQueue.simps [of s])
    next
      case False
      let ?s2 = "(refill s)\<lparr> waitQueue := rest, tokens := tokens (refill s) - 1,
                    settled := settled (refill s) @ [(r, Resolved True, clock (refill s))] \<rparr>"
      have g: "grant (refill s) = Inr ?s2"
        using Cons by (simp add: grant_Cons)
      have "P ?s2" using G [OF "1.prems" Cons] False by simp
      then have "\<exists>s'. processQueue ?s2 = Inr s' \<and> Q s'"
        using "1.IH" [OF _ refl False g] Cons by simp
      then show ?thesis using Cons False g by (simp add: processQueue.simps [of s] Let_def)
    qed
  qed
qed

lemma processQueue_total: "\<exists>s'. processQueue s = Inr s'"
proof -
  have "\<exists>s'. processQueue s = Inr s' \<and> True"
    by (rule processQueue_rule [of "\<lambda>s. True"]) simp_all
  then show ?thesis by simp
qed

lemma step_total: "\<exists>s'. step e s = Inr s'"
  by (cases e) (simp_all add: waitForToken_def Let_def processQueue_total split: option.splits)

lemma run_total: "\<exists>s'. run es s = Inr s'"
proof (induction es arbitrary: s)
  case Nil
  show ?case by simp
next
  case (Cons e es)
  obtain s1 where "step e s = Inr s1" using step_total by blast
  with Cons show ?case by simp
qed

lemma run_invariant:
  assumes "P s" and "run es s = Inr s'"
    and "\<And>e s s'. P s \<Longrightarrow> e \<in> set es \<Longrightarrow> step e s = Inr s' \<Longrightarrow> P s'"
  shows "P s'"
  using assms
proof (induction es arbitrary: s)
  case Nil
  then show ?case by simp
next
  case (Cons e es)
  obtain s1 where s1: "step e s = Inr s1" using step_total by blast
  have P1: "P s1" by (rule Cons.prems(3) [OF Cons.prems(1) _ s1]) simp
  have r1: "run es s1 = Inr s'" using Cons.prems(2) s1 by simp
  show ?case
  proof (rule Cons.IH [OF P1 r1])
    fix e' t t'
    assume "P t" and "e' \<in> set es" and "step e' t = Inr t'"
    then show "P t'" by (intro Cons.prems(3) [of t e' t']) simp_all
  qed
qed

text \<open>The same for one event.\<close>

lemma step_rule:
  assumes I: "P s" and st: "step e s = Inr s'"
    and G: "\<And>s r rest. P s \<Longrightarrow> waitQueue s = r # rest \<Longrightarrow> 1 \<le> tokens (refill s) \<Longrightarrow>
              P ((refill s)\<lparr> waitQueue := rest, tokens := tokens (refill s) - 1,
                    settled := settled (refill s) @ [(r, Resolved True, clock (refill s))] \<rparr>)"
    and Z: "\<And>s. P s \<Longrightarrow> waitQueue s \<noteq> [] \<Longrightarrow> tokens (refill s) < 1 \<Longrightarrow> P (suspend (refill s))"
    and A: "\<And>s. P s \<Longrightarrow> P (s\<lparr> waitQueue := waitQueue s @ [nextReq s], nextReq := Suc (nextReq s) \<rparr>)"
    and T: "\<And>s d. P s \<Longrightarrow> e = Elapse d \<Longrightarrow> P (s\<lparr> clock := clock s + d \<rparr>)"
    and W: "\<And>s due. P s \<Longrightarrow> timer s = Some due \<Longrightarrow> P (s\<lparr> timer := None \<rparr>)"
  shows "P s'"
proof (cases e)
  case Arrive
  let ?s1 = "s\<lparr> waitQueue := waitQueue s @ [nextReq s], nextReq := Suc (nextReq s) \<rparr>"
  have P1: "P ?s1" using A I by simp
  show ?thesis
  proof (cases "length (waitQueue ?s1) = 1")
    case True
    then have "processQueue ?s1 = Inr s'" using st Arrive by (simp add: waitForToken_def Let_def)
    moreover have "\<exists>s'. processQueue ?s1 = Inr s' \<and> P s'"
      using processQueue_rule [of P ?s1 P, OF P1 G Z] by blast
    ultimately show ?thesis by auto
  next
    case False
    then have "s' = ?s1" using st Arrive by (simp add: waitForToken_def Let_def)
    then show ?thesis using P1 by simp
  qed
next
  case (Elapse d)
  then show ?thesis using T [OF I] st by auto
next
  case Wake
  show ?thesis
  proof (cases "timer s")
    case None
    then show ?thesis using st Wake I by simp
  next
    case (Some due)
    show ?thesis
    proof (cases "due \<le> clock s")
      case True
      then have "processQueue (s\<lparr> timer := None \<rparr>) = Inr s'" using st Wake Some by simp
      moreover have "\<exists>s'. processQueue (s\<lparr> timer := None \<rparr>) = Inr s' \<and> P s'"
        using processQueue_rule [of P "s\<lparr> timer := None \<rparr>" P, OF W [OF I Some] G Z] by blast
      ultimately show ?thesis by auto
    next
      case False
      then show ?thesis using st Wake Some I by simp
    qed
  qed
qed

lemma refillAmount_nonneg:
  "lastRefill s \<le> clock s \<Longrightarrow> 0 \<le> maxTokens s \<Longrightarrow> 0 \<le> refillAmount s"
  by (simp add: refillAmount_def pos_imp_zdiv_nonneg_iff)

lemma refill_bounded: "0 \<le> C \<Longrightarrow> bounded C s \<Longrightarrow> bounded C (refill s)"
  using refillAmount_nonneg [of s] by (auto simp: bounded_def refill_def)

lemma step_bounded:
  assumes C: "0 \<le> C" and f: "forward e" and b: "bounded C s" and st: "step e s = Inr s'"
  shows "bounded C s'"
proof (rule step_rule [of "bounded C" s e s', OF b st])
  fix s :: sched and r rest
  assume "bounded C s" and "1 \<le> tokens (refill s)"
  then show "bounded C ((refill s)\<lparr> waitQueue := rest, tokens := tokens (refill s) - 1,
                    settled := settled (refill s) @ [(r, Resolved True, clock (refill s))] \<rparr>)"
    using refill_bounded [OF C, of s] by (simp add: bounded_def)
next
  fix s :: sched
  assume "bounded C s"
  then show "bounded C (suspend (refill s))"
    using refill_bounded [OF C, of s] by (simp add: bounded_def suspend_def)
next
  fix s :: sched
  assume "bounded C s"
  then show "bounded C (s\<lparr> waitQueue := waitQueue s @ [nextReq s], nextReq := Suc (nextReq s) \<rparr>)"
    by (simp add: bounded_def)
next
  fix s :: sched and d
  assume "bounded C s" and "e = Elapse d"
  then show "bounded C (s\<lparr> clock := clock s + d \<rparr>)"
    using f by (simp add: bounded_def)
next
  fix s :: sched and due
  assume "bounded C s"
  then show "bounded C (s\<lparr> timer := None \<rparr>)" by (simp add: bounded_def)
qed

lemma step_fifo:
  assumes b: "fifo s" and st: "step e s = Inr s'"
  shows "fifo s'"
proof (rule step_rule [of fifo s e s', OF b st])
  fix s :: sched and r rest
  assume "fifo s" and "waitQueue s = r # rest"
  then show "fifo ((refill s)\<lparr> waitQueue := rest, tokens := tokens (refill s) - 1,
                    settled := settled (refill s) @ [(r, Resolved True, clock (refill s))] \<rparr>)"
    by (simp add: fifo_def refill_def)
next
  fix s :: sched
  assume "fifo s"
  then show "fifo (suspend (refill s))" by (simp add: fifo_def suspend_def refill_def)
next
  fix s :: sched
  assume "fifo s"
  then show "fifo (s\<lparr> waitQueue := waitQueue s @ [nextReq s], nextReq := Suc (nextReq s) \<rparr>)"
    by (simp add: fifo_def flip: append_assoc)
next
  fix s :: sched and d
  assume "fifo s"
  then show "fifo (s\<lparr> clock := clock s + d \<rparr>)" by (simp add: fifo_def)
next
  fix s :: sched and due
  assume "fifo s"
  then show "fifo (s\<lparr> timer := None \<rparr>)" by (simp add: fifo_def)
qed

lemma step_truthful:
  assumes b: "truthful s" and st: "step e s = Inr s'"
  shows "truthful s'"
proof (rule step_rule [of truthful s e s', OF b st])
  fix s :: sched and r rest
  assume "truthful s"
  then show "truthful ((refill s)\<lparr> waitQueue := rest, tokens := tokens (refill s) - 1,
                    settled := settled (refill s) @ [(r, Resolved True, clock (refill s))] \<rparr>)"
    by (simp add: truthful_def refill_def)
next
  fix s :: sched
  assume "truthful s"
  then show "truthful (suspend (refill s))" by (simp add: truthful_def suspend_def refill_def)
qed (simp_all add: truthful_def)

lemma refill_paced_aux:
  fixes n t C L x :: int
  assumes "(n + t - C) * 60000 \<le> L"
  shows "(n + min C (t + x div 60000) - C) * 60000 \<le> L + x"
proof -
  define q where "q = x div 60000"
  define m where "m = min C (t + q)"
  have "q * 60000 + x mod 60000 = x" by (simp add: q_def)
  moreover have "0 \<le> x mod 60000" by simp
  ultimately have q: "q * 60000 \<le> x" by linarith
  have m: "m \<le> t + q" by (simp add: m_def)
  have "(n + m - C) * 60000 \<le> L + x" using q m assms by (simp add: algebra_simps)
  then show ?thesis by (simp add: m_def q_def)
qed

lemma refill_paced: "paced C t0 s \<Longrightarrow> paced C t0 (refill s)"
proof -
  assume p: "paced C t0 s"
  have e: "(lastRefill s - t0) * C + (clock s - lastRefill s) * C = (clock s - t0) * C"
    by (simp add: algebra_simps)
  show ?thesis
    using p refill_paced_aux [of "int (length (settled s))" "tokens s" C "(lastRefill s - t0) * C"
        "(clock s - lastRefill s) * C"]
    unfolding e by (simp add: paced_def refill_def refillAmount_def)
qed

lemma step_paced:
  assumes b: "paced C t0 s" and st: "step e s = Inr s'"
  shows "paced C t0 s'"
proof (rule step_rule [of "paced C t0" s e s', OF b st])
  fix s :: sched and r rest
  assume p: "paced C t0 s" and t: "1 \<le> tokens (refill s)"
  have p1: "paced C t0 (refill s)" using p by (rule refill_paced)
  have lr: "lastRefill (refill s) = clock (refill s)" by (simp add: refill_def)
  let ?n = "int (length (settled (refill s)))"
  have budget: "(?n + tokens (refill s) - C) * 60000 \<le> (clock (refill s) - t0) * C"
    using p1 lr by (simp add: paced_def)
  have new: "(?n + 1 - C) * 60000 \<le> (clock (refill s) - t0) * C"
    using budget t by simp
  show "paced C t0 ((refill s)\<lparr> waitQueue := rest, tokens := tokens (refill s) - 1,
                    settled := settled (refill s) @ [(r, Resolved True, clock (refill s))] \<rparr>)"
    unfolding paced_def
  proof (intro conjI allI impI)
    fix i
    assume "i < length (settled ((refill s)\<lparr> waitQueue := rest, tokens := tokens (refill s) - 1,
                    settled := settled (refill s) @ [(r, Resolved True, clock (refill s))] \<rparr>))"
    then have i: "i < length (settled (refill s)) \<or> i = length (settled (refill s))" by auto
    then show "(int i + 1 - C) * 60000 \<le> (snd (snd (settled ((refill s)\<lparr> waitQueue := rest, tokens := tokens (refill s) - 1,
                    settled := settled (refill s) @ [(r, Resolved True, clock (refill s))] \<rparr>) ! i)) - t0) * C"
      using p1 new by (auto simp: paced_def nth_append)
  next
    show "maxTokens ((refill s)\<lparr> waitQueue := rest, tokens := tokens (refill s) - 1,
                    settled := settled (refill s) @ [(r, Resolved True, clock (refill s))] \<rparr>) = C"
      using p1 by (simp add: paced_def)
  next
    show "(int (length (settled ((refill s)\<lparr> waitQueue := rest, tokens := tokens (refill s) - 1,
                    settled := settled (refill s) @ [(r, Resolved True, clock (refill s))] \<rparr>))) +
           tokens ((refill s)\<lparr> waitQueue := rest, tokens := tokens (refill s) - 1,
                    settled := settled (refill s) @ [(r, Resolved True, clock (refill s))] \<rparr>) - C) * 60000
          \<le> (lastRefill ((refill s)\<lparr> waitQueue := rest, tokens := tokens (refill s) - 1,
                    settled := settled (refill s) @ [(r, Resolved True, clock (refill s))] \<rparr>) - t0) * C"
      using budget lr by simp
  qed
next
  fix s :: sched
  assume "paced C t0 s"
  then have "paced C t0 (refill s)" by (rule refill_paced)
  then show "paced C t0 (suspend (refill s))" by (simp add: paced_def suspend_def)
qed (simp_all add: paced_def)

lemma processQueue_alive:
  assumes "timer s = None"
  shows "\<exists>s'. processQueue s = Inr s' \<and> alive s'"
proof (rule processQueue_rule [of "\<lambda>s. timer s = None" s alive, OF assms])
  fix s :: sched
  assume "waitQueue s \<noteq> []"
  then show "alive (suspend (refill s))" by (simp add: alive_def suspend_def refill_def)
qed (simp_all add: alive_def refill_def)

lemma step_alive:
  assumes a: "alive s" and st: "step e s = Inr s'"
  shows "alive s'"
proof (cases e)
  case Arrive
  let ?s1 = "s\<lparr> waitQueue := waitQueue s @ [nextReq s], nextReq := Suc (nextReq s) \<rparr>"
  show ?thesis
  proof (cases "waitQueue s = []")
    case True
    then have t: "timer ?s1 = None" using a by (simp add: alive_def)
    have "processQueue ?s1 = Inr s'"
      using st Arrive True by (simp add: waitForToken_def Let_def)
    with processQueue_alive [OF t] show ?thesis by auto
  next
    case False
    then have "s' = ?s1" using st Arrive by (simp add: waitForToken_def Let_def)
    then show ?thesis using a False by (simp add: alive_def)
  qed
next
  case (Elapse d)
  then show ?thesis using a st by (auto simp: alive_def)
next
  case Wake
  show ?thesis
  proof (cases "timer s")
    case None
    then show ?thesis using a st Wake by simp
  next
    case (Some due)
    show ?thesis
    proof (cases "due \<le> clock s")
      case True
      then have "processQueue (s\<lparr> timer := None \<rparr>) = Inr s'" using st Wake Some by simp
      with processQueue_alive [of "s\<lparr> timer := None \<rparr>"] show ?thesis by auto
    next
      case False
      then show ?thesis using a st Wake Some by simp
    qed
  qed
qed

lemma step_timed:
  assumes f: "forward e" and b: "timed s" and st: "step e s = Inr s'"
  shows "timed s'"
proof (rule step_rule [of timed s e s', OF b st])
  fix s :: sched and r rest
  assume "timed s"
  then show "timed ((refill s)\<lparr> waitQueue := rest, tokens := tokens (refill s) - 1,
                    settled := settled (refill s) @ [(r, Resolved True, clock (refill s))] \<rparr>)"
    by (auto simp: timed_def refill_def sorted_append)
next
  fix s :: sched
  assume "timed s"
  then show "timed (suspend (refill s))" by (simp add: timed_def suspend_def refill_def)
next
  fix s :: sched and d
  assume "timed s" and "e = Elapse d"
  then show "timed (s\<lparr> clock := clock s + d \<rparr>)"
    using f by (fastforce simp: timed_def)
qed (simp_all add: timed_def)

lemma RateLimiter_props:
  "fifo (RateLimiter C t0)" "alive (RateLimiter C t0)" "paced C t0 (RateLimiter C t0)"
  "truthful (RateLimiter C t0)" "timed (RateLimiter C t0)"
  by (simp_all add: RateLimiter_def fifo_def alive_def paced_def truthful_def timed_def)

lemma RateLimiter_bounded: "0 \<le> C \<Longrightarrow> bounded C (RateLimiter C t0)"
  by (simp add: RateLimiter_def bounded_def)

lemma run_bounded:
  assumes "0 \<le> C" and "\<forall>e\<in>set es. forward e" and "bounded C s" and "run es s = Inr s'"
  shows "bounded C s'"
  using assms(3,4)
proof (rule run_invariant)
  fix e t t'
  assume "bounded C t" "e \<in> set es" "step e t = Inr t'"
  then show "bounded C t'" using step_bounded [OF assms(1)] assms(2) by blast
qed

lemma run_fifo: "fifo s \<Longrightarrow> run es s = Inr s' \<Longrightarrow> fifo s'"
  by (erule run_invariant, assumption) (rule step_fifo)

lemma run_alive: "alive s \<Longrightarrow> run es s = Inr s' \<Longrightarrow> alive s'"
  by (erule run_invariant, assumption) (rule step_alive)

lemma run_paced: "paced C t0 s \<Longrightarrow> run es s = Inr s' \<Longrightarrow> paced C t0 s'"
  by (erule run_invariant, assumption) (rule step_paced)

lemma run_truthful: "truthful s \<Longrightarrow> run es s = Inr s' \<Longrightarrow> truthful s'"
  by (erule run_invariant, assumption) (rule step_truthful)

lemma run_timed:
  assumes "\<forall>e\<in>set es. forward e" and "timed s" and "run es s = Inr s'"
  shows "timed s'"
  using assms(2,3)
proof (rule run_invariant)
  fix e t t'
  assume "timed t" "e \<in> set es" "step e t = Inr t'"
  then show "timed t'" using step_timed assms(1) by blast
qed

lemma floor_refill:
  "\<lfloor>real_of_int a / 60000 * real_of_int C\<rfloor> = (a * C) div 60000"
proof -
  have "real_of_int a / 60000 * real_of_int C = real_of_int (a * C) / real_of_int 60000"
    by simp
  then show ?thesis by (simp only: floor_divide_of_int_eq)
qed

subsection \<open>What one call, one wake-up and one run of the loop do\<close>

lemma upt_split:
  assumes "xs @ ys = [0..<n]"
  shows "xs = [0..<length xs] \<and> ys = [length xs..<n] \<and> length xs \<le> n"
proof -
  have l: "length xs + length ys = n" using arg_cong [OF assms, of length] by simp
  have "xs = take (length xs) (xs @ ys)" by simp
  also have "\<dots> = [0..<length xs]" unfolding assms using l by simp
  finally have 1: "xs = [0..<length xs]" .
  have "ys = drop (length xs) (xs @ ys)" by simp
  also have "\<dots> = [length xs..<n]" unfolding assms by simp
  finally have 2: "ys = [length xs..<n]" .
  show ?thesis using 1 2 l by simp
qed

lemma run_RateLimiter:
  obtains s where "run es (RateLimiter C t0) = Inr s" "fifo s" "alive s" "paced C t0 s" "truthful s"
proof -
  obtain s where s: "run es (RateLimiter C t0) = Inr s" using run_total by blast
  show ?thesis
    using that [OF s run_fifo [OF RateLimiter_props(1) s] run_alive [OF RateLimiter_props(2) s]
        run_paced [OF RateLimiter_props(3) s] run_truthful [OF RateLimiter_props(4) s]] .
qed

lemma refill_idem: "lastRefill s = clock s \<Longrightarrow> tokens s \<le> maxTokens s \<Longrightarrow> refill s = s"
  by (simp add: refill_def refillAmount_def min_def)

lemma refill_refill: "refill (refill s) = refill s"
  by (rule refill_idem) (simp_all add: refill_def)

lemma processQueue_Nil: "waitQueue s = [] \<Longrightarrow> processQueue s = Inr s"
  by (simp add: processQueue.simps)

lemma processQueue_suspend:
  "waitQueue s \<noteq> [] \<Longrightarrow> tokens (refill s) < 1 \<Longrightarrow> processQueue s = Inr (suspend (refill s))"
  by (simp add: processQueue.simps [of s])

lemma refill_fields [simp]:
  "settled (refill s) = settled s" "timer (refill s) = timer s" "nextReq (refill s) = nextReq s"
  "clock (refill s) = clock s" "maxTokens (refill s) = maxTokens s" "lastRefill (refill s) = clock s"
  by (simp_all add: refill_def)

lemma processQueue_grant:
  assumes "waitQueue s = r # rest" and "1 \<le> tokens (refill s)"
  shows "processQueue s =
     processQueue ((refill s)\<lparr> waitQueue := rest, tokens := tokens (refill s) - 1,
                     settled := settled s @ [(r, Resolved True, clock s)] \<rparr>)"
proof -
  have "grant (refill s) = Inr ((refill s)\<lparr> waitQueue := rest, tokens := tokens (refill s) - 1,
                     settled := settled s @ [(r, Resolved True, clock s)] \<rparr>)"
    using assms(1) by (simp add: grant_Cons [of "refill s" r rest])
  then show ?thesis using assms by (simp add: processQueue.simps [of s] Let_def)
qed

text \<open>What one run of the loop does, when the bucket has just been refilled.\<close>

lemma processQueue_refilled:
  assumes "lastRefill s = clock s" and "tokens s \<le> maxTokens s"
  shows "\<exists>k \<le> length (waitQueue s).
           processQueue s =
             Inr (s\<lparr> waitQueue := drop k (waitQueue s), tokens := tokens s - int k,
                     settled := settled s @ map (\<lambda>r. (r, Resolved True, clock s)) (take k (waitQueue s)),
                     timer := (if k < length (waitQueue s) then Some (clock s + waitTime s) else timer s) \<rparr>)"
  using assms
proof (induction "waitQueue s" arbitrary: s)
  case Nil
  then show ?case by (simp add: processQueue_Nil [of s])
next
  case (Cons r rest)
  have rf: "refill s = s" using Cons.prems by (rule refill_idem)
  have q: "waitQueue s = r # rest" using Cons.hyps(2) by simp
  show ?case
  proof (cases "tokens s < 1")
    case True
    then have "processQueue s = Inr (suspend s)"
      using processQueue_suspend [of s] q rf by simp
    then show ?thesis using q by (intro exI [of _ 0]) (simp add: suspend_def)
  next
    case False
    let ?s2 = "s\<lparr> waitQueue := rest, tokens := tokens s - 1,
                   settled := settled s @ [(r, Resolved True, clock s)] \<rparr>"
    have p: "processQueue s = processQueue ?s2"
      using processQueue_grant [OF q] False rf by simp
    obtain k where k: "k \<le> length rest"
      and pk: "processQueue ?s2 =
             Inr (?s2\<lparr> waitQueue := drop k (waitQueue ?s2), tokens := tokens ?s2 - int k,
                     settled := settled ?s2 @ map (\<lambda>r. (r, Resolved True, clock ?s2)) (take k (waitQueue ?s2)),
                     timer := (if k < length (waitQueue ?s2) then Some (clock ?s2 + waitTime ?s2) else timer ?s2) \<rparr>)"
      using Cons.hyps(1) [of ?s2] Cons.prems by auto
    show ?thesis
      using k p pk q by (intro exI [of _ "Suc k"]) (simp add: waitTime_def)
  qed
qed

lemma processQueue_effect:
  "\<exists>k \<le> length (waitQueue s). \<exists>s'.
      processQueue s = Inr s' \<and> waitQueue s' = drop k (waitQueue s) \<and>
      settled s' = settled s @ map (\<lambda>r. (r, Resolved True, clock s)) (take k (waitQueue s)) \<and>
      (waitQueue s \<noteq> [] \<longrightarrow> tokens s' = tokens (refill s) - int k)"
proof (cases "waitQueue s")
  case Nil
  then show ?thesis by (simp add: processQueue_Nil)
next
  case (Cons r rest)
  have e: "processQueue s = processQueue (refill s)"
    using Cons by (simp add: processQueue.simps [of s] processQueue.simps [of "refill s"] refill_refill)
  have "lastRefill (refill s) = clock (refill s)" "tokens (refill s) \<le> maxTokens (refill s)"
    by (simp_all add: refill_def)
  from processQueue_refilled [OF this] obtain k where
    "k \<le> length (waitQueue s)" and
    "processQueue (refill s) =
             Inr ((refill s)\<lparr> waitQueue := drop k (waitQueue (refill s)), tokens := tokens (refill s) - int k,
                     settled := settled (refill s) @ map (\<lambda>r. (r, Resolved True, clock (refill s))) (take k (waitQueue (refill s))),
                     timer := (if k < length (waitQueue (refill s)) then Some (clock (refill s) + waitTime (refill s)) else timer (refill s)) \<rparr>)"
    by auto
  then show ?thesis unfolding e by (intro exI [of _ k]) (simp add: refill_def)
qed

lemma count_list_upt: "count_list [0..<k] r = (if r < k then 1 else 0)"
  by (induction k) auto

lemma arrive_granted:
  assumes "waitQueue s = []" and "1 \<le> tokens (refill s)"
  shows "waitForToken s =
     Inr ((refill s)\<lparr> tokens := tokens (refill s) - 1, nextReq := Suc (nextReq s),
            settled := settled s @ [(nextReq s, Resolved True, clock s)] \<rparr>)"
proof -
  let ?s1 = "s\<lparr> waitQueue := waitQueue s @ [nextReq s], nextReq := Suc (nextReq s) \<rparr>"
  have q: "waitQueue ?s1 = [nextReq s]" using assms(1) by simp
  have t: "tokens (refill ?s1) = tokens (refill s)" by (simp add: refill_def refillAmount_def)
  have "processQueue ?s1 =
      processQueue ((refill ?s1)\<lparr> waitQueue := [], tokens := tokens (refill ?s1) - 1,
                     settled := settled ?s1 @ [(nextReq s, Resolved True, clock ?s1)] \<rparr>)"
    using processQueue_grant [OF q] assms(2) t by simp
  also have "\<dots> = Inr ((refill ?s1)\<lparr> waitQueue := [], tokens := tokens (refill ?s1) - 1,
                     settled := settled ?s1 @ [(nextReq s, Resolved True, clock ?s1)] \<rparr>)"
    by (rule processQueue_Nil) simp
  finally show ?thesis
    using assms(1) by (simp add: waitForToken_def Let_def refill_def refillAmount_def)
qed

lemma arrive_suspended:
  assumes "waitQueue s = []" and "tokens (refill s) < 1"
  shows "waitForToken s =
     Inr ((refill s)\<lparr> waitQueue := [nextReq s], nextReq := Suc (nextReq s),
            timer := Some (clock s + waitTime s) \<rparr>)"
proof -
  let ?s1 = "s\<lparr> waitQueue := waitQueue s @ [nextReq s], nextReq := Suc (nextReq s) \<rparr>"
  have t: "tokens (refill ?s1) = tokens (refill s)" by (simp add: refill_def refillAmount_def)
  have "processQueue ?s1 = Inr (suspend (refill ?s1))"
    using assms t by (intro processQueue_suspend) simp_all
  then show ?thesis
    using assms(1)
    by (simp add: waitForToken_def Let_def suspend_def refill_def refillAmount_def waitTime_def)
qed

lemma wake_granted:
  assumes "timer s = Some due" and "due \<le> clock s" and "waitQueue s = [r]"
    and "1 \<le> tokens (refill s)"
  shows "step Wake s =
     Inr ((refill s)\<lparr> waitQueue := [], timer := None, tokens := tokens (refill s) - 1,
            settled := settled s @ [(r, Resolved True, clock s)] \<rparr>)"
proof -
  let ?s1 = "s\<lparr> timer := None \<rparr>"
  have q: "waitQueue ?s1 = [r]" using assms(3) by simp
  have t: "tokens (refill ?s1) = tokens (refill s)" by (simp add: refill_def refillAmount_def)
  have "processQueue ?s1 =
      processQueue ((refill ?s1)\<lparr> waitQueue := [], tokens := tokens (refill ?s1) - 1,
                     settled := settled ?s1 @ [(r, Resolved True, clock ?s1)] \<rparr>)"
    using processQueue_grant [OF q] assms(4) t by simp
  also have "\<dots> = Inr ((refill ?s1)\<lparr> waitQueue := [], tokens := tokens (refill ?s1) - 1,
                     settled := settled ?s1 @ [(r, Resolved True, clock ?s1)] \<rparr>)"
    by (rule processQueue_Nil) simp
  finally show ?thesis
    using assms(1,2) by (simp add: refill_def refillAmount_def)
qed

lemma waitTime_earns:
  assumes "0 < maxTokens s"
  shows "60000 \<le> waitTime s * maxTokens s"
proof -
  define C where "C = maxTokens s"
  define q where "q = (- 60000) div C"
  have "q * C + (- 60000) mod C = - 60000" by (simp add: q_def)
  moreover have "0 \<le> (- 60000) mod C" using assms by (simp add: C_def)
  ultimately have "q * C \<le> - 60000" by linarith
  then have "60000 \<le> (- q) * C" by simp
  then show ?thesis by (simp add: waitTime_def q_def C_def)
qed

lemma run_append: "run (es @ fs) s = (case run es s of Inl x \<Rightarrow> Inl x | Inr s' \<Rightarrow> run fs s')"
  by (induction es arbitrary: s) (auto split: sum.splits)

text \<open>A burst of \<open>k\<close> calls on a bucket that has just been refilled and holds \<open>k\<close> tokens.\<close>

lemma run_burst:
  assumes "waitQueue s = []" and "lastRefill s = clock s" and "tokens s \<le> maxTokens s"
    and "int k \<le> tokens s"
  shows "run (replicate k Arrive) s =
     Inr (s\<lparr> tokens := tokens s - int k, nextReq := nextReq s + k,
            settled := settled s @ map (\<lambda>r. (r, Resolved True, clock s)) [nextReq s..<nextReq s + k] \<rparr>)"
  using assms
proof (induction k arbitrary: s)
  case 0
  then show ?case by simp
next
  case (Suc k)
  have rf: "refill s = s" using Suc.prems(2,3) by (rule refill_idem)
  let ?s1 = "s\<lparr> tokens := tokens s - 1, nextReq := Suc (nextReq s),
            settled := settled s @ [(nextReq s, Resolved True, clock s)] \<rparr>"
  have a: "waitForToken s = Inr ?s1"
    using arrive_granted [of s] Suc.prems(1,4) rf by simp
  have "run (replicate k Arrive) ?s1 =
     Inr (?s1\<lparr> tokens := tokens ?s1 - int k, nextReq := nextReq ?s1 + k,
            settled := settled ?s1 @ map (\<lambda>r. (r, Resolved True, clock ?s1)) [nextReq ?s1..<nextReq ?s1 + k] \<rparr>)"
    using Suc.prems by (intro Suc.IH) simp_all
  then show ?case using a by (simp add: upt_rec [of "nextReq s"])
qed

subsection \<open>What the claims say of the limiter with a queue\<close>

lemma queue_within_capacity:
  assumes "0 < C" and "\<forall>e\<in>set es. forward e"
  shows "\<exists>s. run (take n es) (RateLimiter C t0) = Inr s \<and> maxTokens s = C \<and>
           0 \<le> tokens s \<and> tokens s \<le> C \<and>
           tokens (refill s) =
             min C (tokens s + \<lfloor>real_of_int (clock s - lastRefill s) / 60000 * real_of_int C\<rfloor>) \<and>
           0 \<le> tokens (refill s) \<and> tokens (refill s) \<le> C"
proof -
  obtain s where s: "run (take n es) (RateLimiter C t0) = Inr s" using run_total by blast
  have f: "\<forall>e\<in>set (take n es). forward e" using assms(2) by (meson in_set_takeD)
  have C0: "0 \<le> C" using assms(1) by simp
  have b: "bounded C s"
    using run_bounded [OF C0 f RateLimiter_bounded [OF C0] s] .
  have b1: "bounded C (refill s)" using refill_bounded [OF C0 b] .
  have t: "tokens (refill s) =
      min C (tokens s + \<lfloor>real_of_int (clock s - lastRefill s) / 60000 * real_of_int C\<rfloor>)"
    unfolding floor_refill using b by (simp add: refill_def refillAmount_def bounded_def)
  from b have m: "maxTokens s = C" and lo: "0 \<le> tokens s" and hi: "tokens s \<le> C"
    by (simp_all add: bounded_def)
  from b1 have lo1: "0 \<le> tokens (refill s)" and hi1: "tokens (refill s) \<le> C"
    by (simp_all add: bounded_def)
  show ?thesis using s m lo hi t lo1 hi1 by blast
qed

lemma queue_arrival_order:
  assumes "\<forall>e\<in>set es. forward e"
  shows "\<exists>s k. run es (RateLimiter C t0) = Inr s \<and> k \<le> nextReq s \<and>
           map fst (settled s) = [0..<k] \<and> waitQueue s = [k..<nextReq s] \<and>
           sorted (map (\<lambda>x. snd (snd x)) (settled s))"
proof -
  obtain s where s: "run es (RateLimiter C t0) = Inr s" and f: "fifo s"
    by (rule run_RateLimiter)
  have t: "timed s" using run_timed [OF assms RateLimiter_props(5) s] .
  let ?k = "length (settled s)"
  have "map fst (settled s) = [0..<?k] \<and> waitQueue s = [?k..<nextReq s] \<and> ?k \<le> nextReq s"
    using upt_split [of "map fst (settled s)" "waitQueue s" "nextReq s"] f
    by (simp add: fifo_def)
  then show ?thesis using s t unfolding timed_def by blast
qed

lemma queue_never_rejects:
  "\<exists>s. run es (RateLimiter C t0) = Inr s \<and>
       (\<forall>x\<in>set (settled s). fst (snd x) = Resolved True) \<and>
       (\<forall>r<nextReq s.
          (r \<in> set (waitQueue s) \<and> count_list (map fst (settled s)) r = 0) \<or>
          (r \<notin> set (waitQueue s) \<and> count_list (map fst (settled s)) r = 1)) \<and>
       (\<forall>q. \<exists>k \<le> length (waitQueue q). \<exists>q'.
          processQueue q = Inr q' \<and> waitQueue q' = drop k (waitQueue q) \<and>
          settled q' = settled q @ map (\<lambda>r. (r, Resolved True, clock q)) (take k (waitQueue q)) \<and>
          (waitQueue q \<noteq> [] \<longrightarrow> tokens q' = tokens (refill q) - int k))"
proof -
  obtain s where s: "run es (RateLimiter C t0) = Inr s" and f: "fifo s" and t: "truthful s"
    by (rule run_RateLimiter)
  let ?k = "length (settled s)"
  have u: "map fst (settled s) = [0..<?k]" "waitQueue s = [?k..<nextReq s]"
    using upt_split [of "map fst (settled s)" "waitQueue s" "nextReq s"] f
    by (simp_all add: fifo_def)
  have once: "\<forall>r<nextReq s.
          (r \<in> set (waitQueue s) \<and> count_list (map fst (settled s)) r = 0) \<or>
          (r \<notin> set (waitQueue s) \<and> count_list (map fst (settled s)) r = 1)"
    unfolding u(1) count_list_upt using u(2) by auto
  show ?thesis
    using s t once processQueue_effect unfolding truthful_def by blast
qed

lemma earned_time:
  assumes "0 < C" and "nat C \<le> i" and "(int i + 1 - C) * 60000 \<le> (t - t0) * C"
  shows "60000 / real_of_int C \<le> real_of_int (t - t0)"
proof -
  have "1 \<le> int i + 1 - C" using assms(2) by linarith
  then have "60000 \<le> (int i + 1 - C) * 60000" by simp
  with assms(3) have "60000 \<le> (t - t0) * C" by (rule order_trans [rotated])
  then have "real_of_int 60000 \<le> real_of_int ((t - t0) * C)" by (simp only: of_int_le_iff)
  then have "60000 \<le> real_of_int (t - t0) * real_of_int C" by simp
  then show ?thesis using assms(1) by (simp add: pos_divide_le_eq)
qed

lemma queue_burst_then_wait:
  assumes "0 < C"
  shows "(\<exists>s. run (replicate (nat C) Arrive) (RateLimiter C t0) = Inr s \<and>
              settled s = map (\<lambda>r. (r, Resolved True, t0)) [0..<nat C] \<and>
              waitQueue s = [] \<and> timer s = None \<and> tokens s = 0) \<and>
         (\<forall>es. \<exists>s. run es (RateLimiter C t0) = Inr s \<and>
              (\<forall>i<length (settled s). fst (settled s ! i) = i \<and>
                 (nat C \<le> i \<longrightarrow> 60000 / real_of_int C \<le> real_of_int (snd (snd (settled s ! i)) - t0)))) \<and>
         (\<exists>s. run (replicate (nat C) Arrive @ [Arrive, Elapse (waitTime (RateLimiter C t0)), Wake])
                 (RateLimiter C t0) = Inr s \<and>
              settled s = map (\<lambda>r. (r, Resolved True, t0)) [0..<nat C] @
                          [(nat C, Resolved True, t0 + waitTime (RateLimiter C t0))])"
proof (intro conjI allI)
  define s0 where "s0 = RateLimiter C t0"
  define w where "w = waitTime s0"
  define s1 where "s1 = s0\<lparr> tokens := 0, nextReq := nat C,
            settled := map (\<lambda>r. (r, Resolved True, t0)) [0..<nat C] \<rparr>"
  define s2 where "s2 = s1\<lparr> waitQueue := [nat C], nextReq := Suc (nat C), timer := Some (t0 + w) \<rparr>"
  define s3 where "s3 = s2\<lparr> clock := t0 + w \<rparr>"
  define s4 where "s4 = (refill s3)\<lparr> waitQueue := [], timer := None, tokens := tokens (refill s3) - 1,
            settled := settled s3 @ [(nat C, Resolved True, clock s3)] \<rparr>"
  have burst: "run (replicate (nat C) Arrive) s0 = Inr s1"
    using run_burst [of s0 "nat C"] assms by (simp add: s0_def s1_def RateLimiter_def)
  show "\<exists>s. run (replicate (nat C) Arrive) (RateLimiter C t0) = Inr s \<and>
              settled s = map (\<lambda>r. (r, Resolved True, t0)) [0..<nat C] \<and>
              waitQueue s = [] \<and> timer s = None \<and> tokens s = 0"
    using burst by (simp add: s0_def s1_def RateLimiter_def)
  have w: "60000 \<le> w * C" using waitTime_earns [of s0] assms by (simp add: w_def s0_def RateLimiter_def)
  have rf1: "refill s1 = s1"
    by (rule refill_idem) (use assms in \<open>simp_all add: s1_def s0_def RateLimiter_def\<close>)
  have a: "waitForToken s1 = Inr s2"
    using arrive_suspended [of s1] rf1
    by (simp add: s2_def s1_def w_def s0_def RateLimiter_def waitTime_def)
  have e: "step (Elapse w) s2 = Inr s3"
    by (simp add: s3_def s2_def s1_def s0_def RateLimiter_def)
  have amt: "1 \<le> refillAmount s3"
  proof -
    have "refillAmount s3 = (w * C) div 60000"
      by (simp add: refillAmount_def s3_def s2_def s1_def s0_def RateLimiter_def)
    moreover have "1 \<le> (w * C) div 60000" using w by (simp add: pos_imp_zdiv_pos_iff)
    ultimately show ?thesis by simp
  qed
  have t3: "1 \<le> tokens (refill s3)"
    using amt assms by (simp add: refill_def s3_def s2_def s1_def s0_def RateLimiter_def)
  have wk: "step Wake s3 = Inr s4"
    unfolding s4_def
    by (rule wake_granted [of s3 "t0 + w" "nat C", OF _ _ _ t3])
       (simp_all add: s3_def s2_def s1_def s0_def RateLimiter_def)
  have "run [Arrive, Elapse w, Wake] s1 = Inr s4"
    using a e wk by (simp del: step.simps(2,3))
  then have "run (replicate (nat C) Arrive @ [Arrive, Elapse w, Wake]) s0 = Inr s4"
    using burst by (simp add: run_append)
  moreover have "settled s4 = map (\<lambda>r. (r, Resolved True, t0)) [0..<nat C] @
                          [(nat C, Resolved True, t0 + w)]"
    by (simp add: s4_def s3_def s2_def s1_def s0_def RateLimiter_def)
  ultimately show "\<exists>s. run (replicate (nat C) Arrive @ [Arrive, Elapse (waitTime (RateLimiter C t0)), Wake])
                 (RateLimiter C t0) = Inr s \<and>
              settled s = map (\<lambda>r. (r, Resolved True, t0)) [0..<nat C] @
                          [(nat C, Resolved True, t0 + waitTime (RateLimiter C t0))]"
    unfolding w_def s0_def by blast
next
  fix es
  obtain s where s: "run es (RateLimiter C t0) = Inr s" and f: "fifo s" and p: "paced C t0 s"
    by (rule run_RateLimiter)
  have u: "map fst (settled s) = [0..<length (settled s)]"
    using upt_split [of "map fst (settled s)" "waitQueue s" "nextReq s"] f
    by (simp add: fifo_def)
  have "fst (settled s ! i) = i \<and>
        (nat C \<le> i \<longrightarrow> 60000 / real_of_int C \<le> real_of_int (snd (snd (settled s ! i)) - t0))"
    if i: "i < length (settled s)" for i
  proof
    have "map fst (settled s) ! i = [0..<length (settled s)] ! i" using u by simp
    then show "fst (settled s ! i) = i" using i by simp
    show "nat C \<le> i \<longrightarrow> 60000 / real_of_int C \<le> real_of_int (snd (snd (settled s ! i)) - t0)"
    proof
      assume Ci: "nat C \<le> i"
      let ?t = "snd (snd (settled s ! i))"
      have "(int i + 1 - C) * 60000 \<le> (?t - t0) * C" using p i by (simp add: paced_def)
      then show "60000 / real_of_int C \<le> real_of_int (?t - t0)"
        using earned_time [OF assms Ci] by simp
    qed
  qed
  then show "\<exists>s. run es (RateLimiter C t0) = Inr s \<and>
              (\<forall>i<length (settled s). fst (settled s ! i) = i \<and>
                 (nat C \<le> i \<longrightarrow> 60000 / real_of_int C \<le> real_of_int (snd (snd (settled s ! i)) - t0)))"
    using s by blast
qed

section \<open>The limiter without a queue\<close>

lemma directRun_invariant:
  assumes "P s" and "\<And>e s. P s \<Longrightarrow> e \<in> set es \<Longrightarrow> P (directStep e s)"
  shows "P (directRun es s)"
  using assms
proof (induction es arbitrary: s)
  case Nil
  then show ?case by simp
next
  case (Cons e es)
  have "P (directStep e s)" by (rule Cons.prems(2) [OF Cons.prems(1)]) simp
  then have "P (directRun es (directStep e s))"
  proof (rule Cons.IH)
    fix e' t
    assume "P t" and "e' \<in> set es"
    then show "P (directStep e' t)" by (intro Cons.prems(2)) simp_all
  qed
  then show ?case by simp
qed

lemma directAttempt_bounded:
  assumes "0 \<le> C" and "bounded C s"
  shows "bounded C (directAttempt r s)"
  using refill_bounded [OF assms] by (simp add: directAttempt_def Let_def bounded_def)

lemma directStep_bounded:
  assumes "0 \<le> C" and "directForward e" and "bounded C s"
  shows "bounded C (directStep e s)"
proof (cases e)
  case Call
  have "bounded C (s\<lparr> callers := Suc (callers s) \<rparr>)" using assms(3) by (simp add: bounded_def)
  then show ?thesis using Call directAttempt_bounded [OF assms(1)] by simp
next
  case (Pass d)
  then show ?thesis using assms(2,3) by (simp add: bounded_def)
next
  case (Fire r)
  have "bounded C (s\<lparr> sleeping := filter (\<lambda>x. fst x \<noteq> r) (sleeping s) \<rparr>)"
    using assms(3) by (simp add: bounded_def)
  then show ?thesis using Fire assms(3) directAttempt_bounded [OF assms(1)]
    by (simp split: option.splits)
qed

lemma directAttempt_paced:
  assumes "directPaced C t0 s"
  shows "directPaced C t0 (directAttempt r s)"
proof -
  have e: "(lastRefill s - t0) * C + (clock s - lastRefill s) * C = (clock s - t0) * C"
    by (simp add: algebra_simps)
  have m: "maxTokens s = C" using assms by (simp add: directPaced_def)
  have budget: "(int (length (returned s)) + tokens (refill s) - C) * 60000 \<le> (clock s - t0) * C"
    using assms refill_paced_aux [of "int (length (returned s))" "tokens s" C
        "(lastRefill s - t0) * C" "(clock s - lastRefill s) * C"]
    unfolding e by (simp add: directPaced_def refill_def refillAmount_def)
  have old: "\<forall>i<length (returned s).
      (int i + 1 - C) * 60000 \<le> (snd (snd (returned s ! i)) - t0) * C"
    using assms by (simp add: directPaced_def)
  show ?thesis
  proof (cases "tokens (refill s) < 1")
    case True
    then show ?thesis using budget old m
      by (simp add: directAttempt_def Let_def directPaced_def refill_def)
  next
    case False
    then have new: "(int (length (returned s)) + 1 - C) * 60000 \<le> (clock s - t0) * C"
      using budget by simp
    have "(int i + 1 - C) * 60000 \<le>
          (snd (snd ((returned s @ [(r, True, clock s)]) ! i)) - t0) * C"
      if "i < Suc (length (returned s))" for i
    proof (cases "i < length (returned s)")
      case True
      then show ?thesis using old by (simp add: nth_append)
    next
      case False
      then have "i = length (returned s)" using that by simp
      then show ?thesis using new by (simp add: nth_append)
    qed
    then show ?thesis using False budget m
      by (simp add: directAttempt_def Let_def directPaced_def refill_def)
  qed
qed

lemma directStep_paced:
  assumes "directPaced C t0 s"
  shows "directPaced C t0 (directStep e s)"
proof (cases e)
  case Call
  have "directPaced C t0 (s\<lparr> callers := Suc (callers s) \<rparr>)"
    using assms by (simp add: directPaced_def)
  then show ?thesis using Call by (simp add: directAttempt_paced)
next
  case (Pass d)
  then show ?thesis using assms by (simp add: directPaced_def)
next
  case (Fire r)
  have "directPaced C t0 (s\<lparr> sleeping := filter (\<lambda>x. fst x \<noteq> r) (sleeping s) \<rparr>)"
    using assms by (simp add: directPaced_def)
  then show ?thesis using Fire assms by (simp add: directAttempt_paced split: option.splits)
qed

lemma directAttempt_tidy:
  assumes "distinct (map fst (sleeping s) @ map fst (returned s))"
    and "r \<notin> set (map fst (sleeping s)) \<union> set (map fst (returned s))"
    and "insert r (set (map fst (sleeping s)) \<union> set (map fst (returned s))) = {0..<callers s}"
    and "\<forall>x\<in>set (returned s). fst (snd x) = True"
  shows "directTidy (directAttempt r s)"
  using assms by (auto simp: directAttempt_def Let_def directTidy_def refill_def)

lemma directStep_tidy:
  assumes "directTidy s"
  shows "directTidy (directStep e s)"
proof (cases e)
  case Call
  have "directTidy (directAttempt (callers s) (s\<lparr> callers := Suc (callers s) \<rparr>))"
    using assms by (intro directAttempt_tidy) (auto simp: directTidy_def)
  then show ?thesis using Call by simp
next
  case (Pass d)
  then show ?thesis using assms by (simp add: directTidy_def)
next
  case (Fire r)
  show ?thesis
  proof (cases "map_of (sleeping s) r")
    case None
    then show ?thesis using Fire assms by simp
  next
    case (Some due)
    then have "(r, due) \<in> set (sleeping s)" by (rule map_of_SomeD)
    then have r: "r \<in> set (map fst (sleeping s))" by force
    let ?s1 = "s\<lparr> sleeping := filter (\<lambda>x. fst x \<noteq> r) (sleeping s) \<rparr>"
    have f: "map fst (filter (\<lambda>x. fst x \<noteq> r) (sleeping s)) =
             filter (\<lambda>k. k \<noteq> r) (map fst (sleeping s))"
      by (simp add: filter_map comp_def)
    have "directTidy (directAttempt r ?s1)"
    proof (rule directAttempt_tidy)
      show "distinct (map fst (sleeping ?s1) @ map fst (returned ?s1))"
        using assms by (auto simp: directTidy_def f)
      show "r \<notin> set (map fst (sleeping ?s1)) \<union> set (map fst (returned ?s1))"
        using assms r by (auto simp: directTidy_def f)
      show "insert r (set (map fst (sleeping ?s1)) \<union> set (map fst (returned ?s1))) =
            {0..<callers ?s1}"
        using assms r by (auto simp: directTidy_def f)
      show "\<forall>x\<in>set (returned ?s1). fst (snd x) = True"
        using assms by (simp add: directTidy_def)
    qed
    then show ?thesis using Fire Some assms by simp
  qed
qed

lemma DirectLimiter_props:
  "directPaced C t0 (DirectLimiter C t0)" "directTidy (DirectLimiter C t0)"
  by (simp_all add: DirectLimiter_def directPaced_def directTidy_def)

lemma DirectLimiter_bounded: "0 \<le> C \<Longrightarrow> bounded C (DirectLimiter C t0)"
  by (simp add: DirectLimiter_def bounded_def)

lemma directRun_bounded:
  assumes "0 \<le> C" and "\<forall>e\<in>set es. directForward e" and "bounded C s"
  shows "bounded C (directRun es s)"
  using assms(3)
proof (rule directRun_invariant)
  fix e and t :: direct
  assume "bounded C t" "e \<in> set es"
  then show "bounded C (directStep e t)" using directStep_bounded [OF assms(1)] assms(2) by blast
qed

lemma directRun_paced: "directPaced C t0 s \<Longrightarrow> directPaced C t0 (directRun es s)"
  by (erule directRun_invariant) (rule directStep_paced)

lemma directRun_tidy: "directTidy s \<Longrightarrow> directTidy (directRun es s)"
  by (erule directRun_invariant) (rule directStep_tidy)

lemma directRun_append: "directRun (es @ fs) s = directRun fs (directRun es s)"
  by (induction es arbitrary: s) simp_all

lemma directRun_burst:
  assumes "lastRefill s = clock s" and "tokens s \<le> maxTokens s" and "int k \<le> tokens s"
  shows "directRun (replicate k Call) s =
     s\<lparr> tokens := tokens s - int k, callers := callers s + k,
        returned := returned s @ map (\<lambda>r. (r, True, clock s)) [callers s..<callers s + k] \<rparr>"
  using assms
proof (induction k arbitrary: s)
  case 0
  then show ?case by simp
next
  case (Suc k)
  let ?s0 = "s\<lparr> callers := Suc (callers s) \<rparr>"
  have rf: "refill ?s0 = ?s0" using Suc.prems(1,2) by (intro refill_idem) simp_all
  let ?s1 = "s\<lparr> callers := Suc (callers s), tokens := tokens s - 1,
                 returned := returned s @ [(callers s, True, clock s)] \<rparr>"
  have a: "directStep Call s = ?s1"
    using Suc.prems(3) rf by (simp add: directAttempt_def Let_def)
  have "directRun (replicate k Call) ?s1 =
     ?s1\<lparr> tokens := tokens ?s1 - int k, callers := callers ?s1 + k,
        returned := returned ?s1 @ map (\<lambda>r. (r, True, clock ?s1)) [callers ?s1..<callers ?s1 + k] \<rparr>"
    using Suc.prems by (intro Suc.IH) simp_all
  then show ?case using a by (simp add: upt_rec [of "callers s"])
qed

subsection \<open>What the claims say of the limiter without a queue\<close>

lemma direct_within_capacity:
  assumes "0 < C" and "\<forall>e\<in>set ds. directForward e"
  shows "\<exists>d. d = directRun (take n ds) (DirectLimiter C t0) \<and> maxTokens d = C \<and>
           0 \<le> tokens d \<and> tokens d \<le> C \<and>
           tokens (refill d) =
             min C (tokens d + \<lfloor>real_of_int (clock d - lastRefill d) / 60000 * real_of_int C\<rfloor>) \<and>
           0 \<le> tokens (refill d) \<and> tokens (refill d) \<le> C"
proof -
  define d where "d = directRun (take n ds) (DirectLimiter C t0)"
  have f: "\<forall>e\<in>set (take n ds). directForward e" using assms(2) by (meson in_set_takeD)
  have C0: "0 \<le> C" using assms(1) by simp
  have b: "bounded C d"
    unfolding d_def using directRun_bounded [OF C0 f DirectLimiter_bounded [OF C0]] .
  have b1: "bounded C (refill d)" using refill_bounded [OF C0 b] .
  have t: "tokens (refill d) =
      min C (tokens d + \<lfloor>real_of_int (clock d - lastRefill d) / 60000 * real_of_int C\<rfloor>)"
    unfolding floor_refill using b by (simp add: refill_def refillAmount_def bounded_def)
  from b have m: "maxTokens d = C" and lo: "0 \<le> tokens d" and hi: "tokens d \<le> C"
    by (simp_all add: bounded_def)
  from b1 have lo1: "0 \<le> tokens (refill d)" and hi1: "tokens (refill d) \<le> C"
    by (simp_all add: bounded_def)
  show ?thesis using d_def m lo hi t lo1 hi1 by blast
qed

lemma refill_bucket_fields [simp]:
  "clock (refill s) = clock s" "maxTokens (refill s) = maxTokens s" "lastRefill (refill s) = clock s"
  by (simp_all add: refill_def)

lemma refill_direct_fields [simp]:
  "returned (refill s) = returned s" "sleeping (refill s) = sleeping s"
  "callers (refill s) = callers s"
  by (simp_all add: refill_def)

lemma count_list_distinct: "distinct xs \<Longrightarrow> count_list xs r = (if r \<in> set xs then 1 else 0)"
  by (induction xs) auto

lemma direct_never_rejects:
  "\<exists>d. d = directRun ds (DirectLimiter C t0) \<and>
       (\<forall>x\<in>set (returned d). fst (snd x) = True) \<and>
       (\<forall>r<callers d.
          (r \<in> fst ` set (sleeping d) \<and> count_list (map fst (returned d)) r = 0) \<or>
          (r \<notin> fst ` set (sleeping d) \<and> count_list (map fst (returned d)) r = 1)) \<and>
       (\<forall>q r. (tokens (refill q) < 1 \<longrightarrow>
                  returned (directAttempt r q) = returned q \<and>
                  tokens (directAttempt r q) = tokens (refill q)) \<and>
               (1 \<le> tokens (refill q) \<longrightarrow>
                  returned (directAttempt r q) = returned q @ [(r, True, clock q)] \<and>
                  tokens (directAttempt r q) = tokens (refill q) - 1))"
proof -
  define d where "d = directRun ds (DirectLimiter C t0)"
  have t: "directTidy d" unfolding d_def using DirectLimiter_props(2) by (rule directRun_tidy)
  have dist: "distinct (map fst (returned d))" using t by (simp add: directTidy_def)
  have once: "(r \<in> fst ` set (sleeping d) \<and> count_list (map fst (returned d)) r = 0) \<or>
          (r \<notin> fst ` set (sleeping d) \<and> count_list (map fst (returned d)) r = 1)"
    if "r < callers d" for r
  proof -
    have "r \<in> set (map fst (sleeping d)) \<union> set (map fst (returned d))"
      using t that by (simp add: directTidy_def)
    moreover have "set (map fst (sleeping d)) \<inter> set (map fst (returned d)) = {}"
      using t by (simp add: directTidy_def)
    ultimately show ?thesis unfolding count_list_distinct [OF dist] by auto
  qed
  have acc: "(tokens (refill q) < 1 \<longrightarrow>
                  returned (directAttempt r q) = returned q \<and>
                  tokens (directAttempt r q) = tokens (refill q)) \<and>
               (1 \<le> tokens (refill q) \<longrightarrow>
                  returned (directAttempt r q) = returned q @ [(r, True, clock q)] \<and>
                  tokens (directAttempt r q) = tokens (refill q) - 1)" for q r
    by (cases "tokens (refill q) < 1") (simp_all add: directAttempt_def Let_def)
  have tr: "\<forall>x\<in>set (returned d). fst (snd x) = True" using t by (simp add: directTidy_def)
  show ?thesis using d_def tr once acc by blast
qed

lemma direct_burst_then_wait:
  assumes "0 < C"
  shows "(\<exists>d. d = directRun (replicate (nat C) Call) (DirectLimiter C t0) \<and>
              returned d = map (\<lambda>r. (r, True, t0)) [0..<nat C] \<and>
              sleeping d = [] \<and> tokens d = 0) \<and>
         (\<forall>ds. \<exists>d. d = directRun ds (DirectLimiter C t0) \<and>
              (\<forall>i<length (returned d).
                 nat C \<le> i \<longrightarrow> 60000 / real_of_int C \<le> real_of_int (snd (snd (returned d ! i)) - t0))) \<and>
         (\<exists>d. d = directRun (replicate (nat C) Call @
                               [Call, Pass (waitTime (DirectLimiter C t0)), Fire (nat C)])
                     (DirectLimiter C t0) \<and>
              returned d = map (\<lambda>r. (r, True, t0)) [0..<nat C] @
                           [(nat C, True, t0 + waitTime (DirectLimiter C t0))])"
proof (intro conjI allI)
  define s0 where "s0 = DirectLimiter C t0"
  define w where "w = waitTime s0"
  define s1 where "s1 = s0\<lparr> tokens := 0, callers := nat C,
            returned := map (\<lambda>r. (r, True, t0)) [0..<nat C] \<rparr>"
  define s2 where "s2 = s1\<lparr> callers := Suc (nat C), sleeping := [(nat C, t0 + w)] \<rparr>"
  define s3 where "s3 = s2\<lparr> clock := t0 + w \<rparr>"
  have burst: "directRun (replicate (nat C) Call) s0 = s1"
    using directRun_burst [of s0 "nat C"] assms by (simp add: s0_def s1_def DirectLimiter_def)
  show "\<exists>d. d = directRun (replicate (nat C) Call) (DirectLimiter C t0) \<and>
              returned d = map (\<lambda>r. (r, True, t0)) [0..<nat C] \<and>
              sleeping d = [] \<and> tokens d = 0"
    using burst by (simp add: s0_def s1_def DirectLimiter_def)
  have w: "60000 \<le> w * C"
    using waitTime_earns [of s0] assms by (simp add: w_def s0_def DirectLimiter_def)
  have rf1: "refill (s1\<lparr> callers := Suc (nat C) \<rparr>) = s1\<lparr> callers := Suc (nat C) \<rparr>"
    by (rule refill_idem) (use assms in \<open>simp_all add: s1_def s0_def DirectLimiter_def\<close>)
  have a: "directStep Call s1 = s2"
    using rf1
    by (simp add: directAttempt_def Let_def s2_def s1_def w_def s0_def DirectLimiter_def waitTime_def)
  have e: "directStep (Pass w) s2 = s3"
    by (simp add: s3_def s2_def s1_def s0_def DirectLimiter_def)
  have amt: "1 \<le> (w * C) div 60000" using w by (simp add: pos_imp_zdiv_pos_iff)
  have t3: "1 \<le> tokens (refill (s3\<lparr> sleeping := [] \<rparr>))"
    using amt assms
    by (simp add: refill_def refillAmount_def s3_def s2_def s1_def s0_def DirectLimiter_def)
  have "returned (directStep (Fire (nat C)) s3) =
          map (\<lambda>r. (r, True, t0)) [0..<nat C] @ [(nat C, True, t0 + w)]"
    using t3
    by (simp add: directAttempt_def Let_def s3_def s2_def s1_def s0_def DirectLimiter_def)
  then have "returned (directRun (replicate (nat C) Call @ [Call, Pass w, Fire (nat C)]) s0) =
          map (\<lambda>r. (r, True, t0)) [0..<nat C] @ [(nat C, True, t0 + w)]"
    using burst a e by (simp add: directRun_append del: directStep.simps)
  then show "\<exists>d. d = directRun (replicate (nat C) Call @
                               [Call, Pass (waitTime (DirectLimiter C t0)), Fire (nat C)])
                     (DirectLimiter C t0) \<and>
              returned d = map (\<lambda>r. (r, True, t0)) [0..<nat C] @
                           [(nat C, True, t0 + waitTime (DirectLimiter C t0))]"
    unfolding w_def s0_def by blast
next
  fix ds
  define d where "d = directRun ds (DirectLimiter C t0)"
  have p: "directPaced C t0 d"
    unfolding d_def using DirectLimiter_props(1) by (rule directRun_paced)
  have "nat C \<le> i \<longrightarrow> 60000 / real_of_int C \<le> real_of_int (snd (snd (returned d ! i)) - t0)"
    if i: "i < length (returned d)" for i
  proof
    assume Ci: "nat C \<le> i"
    have "(int i + 1 - C) * 60000 \<le> (snd (snd (returned d ! i)) - t0) * C"
      using p i by (simp add: directPaced_def)
    then show "60000 / real_of_int C \<le> real_of_int (snd (snd (returned d ! i)) - t0)"
      using earned_time [OF assms Ci] by simp
  qed
  then show "\<exists>d. d = directRun ds (DirectLimiter C t0) \<and>
              (\<forall>i<length (returned d).
                 nat C \<le> i \<longrightarrow> 60000 / real_of_int C \<le> real_of_int (snd (snd (returned d ! i)) - t0))"
    using d_def by blast
qed

section \<open>The refill in double precision\<close>

text \<open>
  Some values of \<open>binary64\<close>: one tenth and one third as the doubles they are, and a tie
  that goes to the even significand.
\<close>

lemma binary64_examples:
  "binary64 (1 / 10) = 3602879701896397 / 36028797018963968"
  "binary64 (1 / 3) = 6004799503160661 / 18014398509481984"
  "binary64 (1 / 2) = 1 / 2" "binary64 3 = 3"
  "binary64 9007199254740993 = 9007199254740992"
  "binary64 9007199254740995 = 9007199254740996"
  "binary64 (- (1 / 10)) = - (3602879701896397 / 36028797018963968)"
  by code_simp+

text \<open>
  The amount is not negative when the clock has not gone back, so that a refill in double
  precision keeps the token count within the capacity, as the exact one does.
\<close>

lemma pow2_pos: "0 < pow2 e"
  by (simp add: pow2_def)

lemma roundEven_nonneg: "0 \<le> x \<Longrightarrow> 0 \<le> roundEven x"
proof -
  assume "0 \<le> x"
  then have "0 \<le> \<lfloor>x\<rfloor>" by simp
  then show ?thesis by (simp add: roundEven_def Let_def)
qed

lemma binary64_nonneg: "0 \<le> x \<Longrightarrow> 0 \<le> binary64 x"
proof (cases "x = 0")
  case True
  then show ?thesis by (simp add: binary64_def)
next
  case False
  assume "0 \<le> x"
  then have x: "0 < x" using False by simp
  define u where "u = pow2 (exponent \<bar>x\<bar> - 52)"
  have u: "0 < u" unfolding u_def by (rule pow2_pos)
  have "0 \<le> \<bar>x\<bar> / u" using u by simp
  then have "0 \<le> roundEven (\<bar>x\<bar> / u)" by (rule roundEven_nonneg)
  then have "0 \<le> sgn x * of_int (roundEven (\<bar>x\<bar> / u)) * u" using x u by simp
  then show ?thesis using False by (simp add: binary64_def Let_def u_def)
qed

lemma jsRefillAmount_nonneg:
  assumes "0 \<le> timePassed" and "0 \<le> capacity"
  shows "0 \<le> jsRefillAmount timePassed capacity"
proof -
  have "0 \<le> (of_int timePassed :: rat) / 60000" using assms(1) by simp
  then have "0 \<le> binary64 (of_int timePassed / 60000)" by (rule binary64_nonneg)
  then have "0 \<le> binary64 (of_int timePassed / 60000) * of_int capacity"
    using assms(2) by simp
  then have "0 \<le> binary64 (binary64 (of_int timePassed / 60000) * of_int capacity)"
    by (rule binary64_nonneg)
  then show ?thesis by (simp add: jsRefillAmount_def)
qed

lemma jsRefill_bounded:
  assumes "0 \<le> C" and "bounded C s"
  shows "bounded C (jsRefill s)"
proof -
  have "0 \<le> jsRefillAmount (clock s - lastRefill s) (maxTokens s)"
    using assms by (intro jsRefillAmount_nonneg) (simp_all add: bounded_def)
  then show ?thesis using assms by (simp add: bounded_def jsRefill_def)
qed

text \<open>
  Rounding moves a positive number by at most one part in \<open>2 ^ 53\<close>: \<open>exponent x\<close> is not
  above the binary logarithm of \<open>x\<close>, and \<open>roundEven\<close> moves a number by at most a half.
\<close>

lemma bits_bounds: "0 < n \<Longrightarrow> 1 \<le> bits n \<and> 2 ^ nat (bits n - 1) \<le> n \<and> n < 2 ^ nat (bits n)"
proof (induction n rule: bits.induct)
  case (1 n)
  show ?case
  proof (cases "n = 1")
    case True
    have "bits 1 = 1" by (simp add: bits.simps [of 1] bits.simps [of 0])
    then show ?thesis using True by simp
  next
    case False
    then have h: "0 < n div 2" using 1(2) by simp
    have n: "\<not> n \<le> 0" using 1(2) by simp
    from 1(1) [OF n h] have ih: "1 \<le> bits (n div 2)"
      "2 ^ nat (bits (n div 2) - 1) \<le> n div 2" "n div 2 < 2 ^ nat (bits (n div 2))" by simp_all
    have b: "bits n = bits (n div 2) + 1" using n by (simp add: bits.simps [of n])
    have e: "nat (bits (n div 2)) = Suc (nat (bits (n div 2) - 1))" using ih(1) by simp
    have "2 * 2 ^ nat (bits (n div 2) - 1) \<le> 2 * (n div 2)" using ih(2) by simp
    also have "\<dots> \<le> n" by simp
    finally have lo: "2 ^ nat (bits (n div 2)) \<le> n" by (simp add: e)
    have "n div 2 + 1 \<le> 2 ^ nat (bits (n div 2))" using ih(3) by simp
    then have "2 * (n div 2 + 1) \<le> 2 * 2 ^ nat (bits (n div 2))" by simp
    moreover have "n < 2 * (n div 2 + 1)" by presburger
    ultimately have hi: "n < 2 * 2 ^ nat (bits (n div 2))" by simp
    have e2: "nat (bits (n div 2) + 1) = Suc (nat (bits (n div 2)))" using ih(1) by simp
    show ?thesis using lo hi ih(1) by (simp add: b e2)
  qed
qed

lemma pow2_powi: "pow2 e = 2 powi e"
  by (simp add: pow2_def power_int_def power_one_over)

lemma pow2_exponent:
  assumes "0 < x"
  shows "pow2 (exponent x) \<le> x"
proof -
  obtain a b where q: "quotient_of x = (a, b)" by (cases "quotient_of x")
  have b: "0 < b" using q by (rule quotient_of_denom_pos)
  have x: "x = of_int a / of_int b" using q by (rule quotient_of_div)
  have a: "0 < a" using assms b x by (simp add: zero_less_divide_iff)
  from bits_bounds [OF a] have ba: "1 \<le> bits a" "2 ^ nat (bits a - 1) \<le> a" by simp_all
  from bits_bounds [OF b] have bb: "1 \<le> bits b" "b < 2 ^ nat (bits b)" by simp_all
  have "bits a - bits b - 1 = (bits a - 1) - bits b" by simp
  then have "pow2 (bits a - bits b - 1) = 2 powi ((bits a - 1) - bits b)"
    by (simp only: pow2_powi)
  also have "\<dots> = 2 powi (bits a - 1) / 2 powi (bits b)"
    by (rule power_int_diff) simp
  also have "\<dots> = 2 ^ nat (bits a - 1) / 2 ^ nat (bits b)"
    using ba(1) bb(1) by (simp add: power_int_def)
  also have "\<dots> \<le> of_int a / of_int b"
  proof -
    have 1: "(2 :: rat) ^ nat (bits a - 1) \<le> of_int a"
      using ba(2) by (metis of_int_le_iff of_int_numeral of_int_power)
    have 2: "(of_int b :: rat) \<le> 2 ^ nat (bits b)"
      using bb(2) by (metis less_imp_le of_int_le_iff of_int_numeral of_int_power)
    have 3: "(0 :: rat) < of_int b" using b by simp
    have 4: "(0 :: rat) \<le> of_int a" using a by simp
    show ?thesis using 1 2 3 4 by (intro frac_le) simp_all
  qed
  finally have "pow2 (bits a - bits b - 1) \<le> x" using x by simp
  then show ?thesis using q by (simp add: exponent_def Let_def)
qed

lemma roundEven_near: "\<bar>of_int (roundEven x) - x\<bar> \<le> 1 / 2"
proof -
  have "of_int \<lfloor>x\<rfloor> \<le> x" "x < of_int \<lfloor>x\<rfloor> + 1" by linarith+
  then show ?thesis by (auto simp: roundEven_def Let_def abs_le_iff)
qed

lemma binary64_near:
  assumes "0 \<le> x"
  shows "\<bar>binary64 x - x\<bar> \<le> x / 9007199254740992"
proof (cases "x = 0")
  case True
  then show ?thesis by (simp add: binary64_def)
next
  case False
  then have x: "0 < x" using assms by simp
  define u where "u = pow2 (exponent x - 52)"
  have u: "0 < u" unfolding u_def by (rule pow2_pos)
  have "u = pow2 (exponent x) / 2 ^ 52"
    by (simp add: u_def pow2_powi power_int_diff)
  then have ux: "u \<le> x / 2 ^ 52" using pow2_exponent [OF x] by (simp add: divide_right_mono)
  have b: "binary64 x = of_int (roundEven (x / u)) * u"
    using x by (simp add: binary64_def Let_def u_def)
  have "binary64 x - x = (of_int (roundEven (x / u)) - x / u) * u"
    using u by (simp add: b algebra_simps)
  then have "\<bar>binary64 x - x\<bar> = \<bar>of_int (roundEven (x / u)) - x / u\<bar> * u"
    using u by (simp add: abs_mult)
  also have "\<dots> \<le> 1 / 2 * u"
    using roundEven_near [of "x / u"] u by (intro mult_right_mono) simp_all
  also have "\<dots> \<le> 1 / 2 * (x / 2 ^ 52)" using ux by simp
  finally show ?thesis by simp
qed

lemma product_near:
  assumes "0 \<le> t"
  shows "of_int t / 20000 * (9007199254740990 / 9007199254740992)
           \<le> binary64 (binary64 (of_int t / 60000) * 3) \<and>
         binary64 (binary64 (of_int t / 60000) * 3)
           \<le> of_int t / 20000 * (9007199254740995 / 9007199254740992)"
proof -
  define T :: rat where "T = of_int t / 60000"
  define q where "q = binary64 T"
  define p where "p = binary64 (q * 3)"
  have T: "0 \<le> T" using assms by (simp add: T_def)
  have q0: "0 \<le> q" unfolding q_def using T by (rule binary64_nonneg)
  have "\<bar>q - T\<bar> \<le> T / 9007199254740992" unfolding q_def using T by (rule binary64_near)
  then have q: "T - T / 9007199254740992 \<le> q" "q \<le> T + T / 9007199254740992"
    by linarith+
  have "0 \<le> q * 3" using q0 by simp
  then have "\<bar>p - q * 3\<bar> \<le> q * 3 / 9007199254740992" unfolding p_def by (rule binary64_near)
  then have p: "q * 3 - q * 3 / 9007199254740992 \<le> p"
    "p \<le> q * 3 + q * 3 / 9007199254740992"
    by linarith+
  have "of_int t / 20000 = 3 * T" by (simp add: T_def)
  moreover have "3 * T * (9007199254740990 / 9007199254740992) \<le> p" using p(1) q(1) T by linarith
  moreover have "p \<le> 3 * T * (9007199254740995 / 9007199254740992)" using p(2) q(2) T by linarith
  ultimately show ?thesis by (simp add: p_def q_def T_def)
qed

text \<open>
  With capacity 3 a token is worth 20000 ms. At the multiples of 20000 up to 60000 the
  rounded product is the exact one; between them the exact product is further from an
  integer than the two roundings can move it; and after 60000 ms both amounts fill the
  bucket. So a limiter of capacity 3, which is the capacity both programs construct
  theirs with, refills in double precision as \<open>refill\<close> says.
\<close>

lemma jsRefillAmount_between:
  assumes "20000 * j + 1 \<le> t" and "t \<le> 20000 * j + 19999" and "0 \<le> j" and "j \<le> 2"
  shows "jsRefillAmount t 3 = j"
proof -
  define p where "p = binary64 (binary64 (of_int t / 60000) * 3)"
  have t: "0 \<le> t" using assms by simp
  from product_near [OF t] have p: "of_int t / 20000 * (9007199254740990 / 9007199254740992) \<le> p"
    "p \<le> of_int t / 20000 * (9007199254740995 / 9007199254740992)"
    by (simp_all add: p_def)
  have 1: "20000 * (of_int j :: rat) + 1 \<le> of_int t"
  proof -
    have "(of_int (20000 * j + 1) :: rat) \<le> of_int t" using assms(1) by (simp only: of_int_le_iff)
    then show ?thesis by simp
  qed
  have 2: "(of_int t :: rat) \<le> 20000 * of_int j + 19999"
  proof -
    have "(of_int t :: rat) \<le> of_int (20000 * j + 19999)" using assms(2) by (simp only: of_int_le_iff)
    then show ?thesis by simp
  qed
  have 3: "(0 :: rat) \<le> of_int j" "(of_int j :: rat) \<le> 2" using assms(3,4) by simp_all
  have "of_int j \<le> p" using p(1) 1 3 by linarith
  moreover have "p < of_int j + 1" using p(2) 2 3 by linarith
  ultimately have "\<lfloor>p\<rfloor> = j" by (rule floor_unique)
  then show ?thesis by (simp add: jsRefillAmount_def p_def)
qed

lemma jsRefillAmount_beyond:
  assumes "60000 \<le> t"
  shows "3 \<le> jsRefillAmount t 3"
proof (cases "t = 60000")
  case True
  have "jsRefillAmount 60000 3 = 3" by code_simp
  then show ?thesis using True by simp
next
  case False
  define p where "p = binary64 (binary64 (of_int t / 60000) * 3)"
  have t: "0 \<le> t" using assms by simp
  from product_near [OF t] have p: "of_int t / 20000 * (9007199254740990 / 9007199254740992) \<le> p"
    by (simp add: p_def)
  have "60001 \<le> t" using assms False by simp
  then have "(60001 :: rat) \<le> of_int t" by simp
  then have "3 \<le> p" using p by linarith
  then have "3 \<le> \<lfloor>p\<rfloor>" by (simp add: le_floor_iff)
  then show ?thesis by (simp add: jsRefillAmount_def p_def)
qed

lemma exact_capacity_3: "t * 3 div 60000 = t div (20000 :: int)"
  using div_mult_mult2 [of 3 t 20000] by simp

lemma jsRefillAmount_capacity_3:
  assumes "0 \<le> t" and "t < 60000"
  shows "jsRefillAmount t 3 = t * 3 div 60000"
proof -
  define j where "j = t div 20000"
  have j1: "0 \<le> j" using assms(1) by (simp add: j_def)
  have "t \<le> 59999" using assms(2) by simp
  then have "t div 20000 \<le> 59999 div 20000" by (rule zdiv_mono1) simp
  then have j2: "j \<le> 2" by (simp add: j_def)
  have j3: "t * 3 div 60000 = j" by (simp add: j_def exact_capacity_3)
  have m: "t = 20000 * j + t mod 20000" by (simp add: j_def)
  have "0 \<le> t mod 20000" "t mod 20000 < 20000" by simp_all
  then have j4: "20000 * j \<le> t" and j5: "t \<le> 20000 * j + 19999" using m by linarith+
  note j = j1 j2 j3 j4 j5
  show ?thesis
  proof (cases "t = 20000 * j")
    case True
    have e: "jsRefillAmount 0 3 = 0" "jsRefillAmount 20000 3 = 1" "jsRefillAmount 40000 3 = 2"
      by code_simp+
    have "j = 0 \<or> j = 1 \<or> j = 2" using j(1,2) by presburger
    then show ?thesis using True e j(3) by auto
  next
    case False
    then have "20000 * j + 1 \<le> t" using j(4) by simp
    then have "jsRefillAmount t 3 = j" using j(5,1,2) by (rule jsRefillAmount_between)
    then show ?thesis using j(3) by simp
  qed
qed

lemma jsRefill_capacity_3:
  assumes "bounded 3 s"
  shows "jsRefill s = refill s"
proof (cases "clock s - lastRefill s < 60000")
  case True
  have "0 \<le> clock s - lastRefill s" using assms by (simp add: bounded_def)
  then have "jsRefillAmount (clock s - lastRefill s) 3 = (clock s - lastRefill s) * 3 div 60000"
    using True by (rule jsRefillAmount_capacity_3)
  then show ?thesis using assms by (simp add: jsRefill_def refill_def refillAmount_def bounded_def)
next
  case False
  then have t: "60000 \<le> clock s - lastRefill s" by simp
  then have 1: "3 \<le> jsRefillAmount (clock s - lastRefill s) 3" by (rule jsRefillAmount_beyond)
  have "60000 div 20000 \<le> (clock s - lastRefill s) div 20000" using t by (rule zdiv_mono1) simp
  then have 2: "3 \<le> (clock s - lastRefill s) * 3 div 60000" by (simp add: exact_capacity_3)
  show ?thesis using assms 1 2 by (simp add: jsRefill_def refill_def refillAmount_def bounded_def)
qed

section \<open>The claims about the limiters\<close>

subsection \<open>The token count stays within the capacity; what a refill adds\<close>


text \<open>
  The bounds that claim C1 states. Take a limiter of positive capacity \<open>C\<close> and any sequence
  of calls of \<^verbatim>\<open>waitForToken\<close>, elapsed time and timer wake-ups in which the clock never goes
  back. After every prefix of the sequence the limiter has produced no error and holds
  between 0 and \<open>C\<close> tokens. This holds for the limiter with a queue (rateLimiter.js) and
  for the limiter without one (index.js).
\<close>

theorem token_count_within_capacity:
  assumes "0 < C" and "\<forall>e\<in>set es. forward e" and "\<forall>e\<in>set ds. directForward e"
  shows "(\<exists>s. run (take n es) (RateLimiter C t0) = Inr s \<and> maxTokens s = C \<and>
            0 \<le> tokens s \<and> tokens s \<le> C) \<and>
         (\<exists>d. d = directRun (take n ds) (DirectLimiter C t0) \<and> maxTokens d = C \<and>
            0 \<le> tokens d \<and> tokens d \<le> C)"
proof
  from queue_within_capacity [OF assms(1,2), of n t0] obtain s where
    "run (take n es) (RateLimiter C t0) = Inr s" "maxTokens s = C" "0 \<le> tokens s" "tokens s \<le> C"
    by blast
  then show "\<exists>s. run (take n es) (RateLimiter C t0) = Inr s \<and> maxTokens s = C \<and>
            0 \<le> tokens s \<and> tokens s \<le> C"
    by blast
next
  from direct_within_capacity [OF assms(1,3), of n t0] obtain d where
    "d = directRun (take n ds) (DirectLimiter C t0)" "maxTokens d = C" "0 \<le> tokens d" "tokens d \<le> C"
    by blast
  then show "\<exists>d. d = directRun (take n ds) (DirectLimiter C t0) \<and> maxTokens d = C \<and>
            0 \<le> tokens d \<and> tokens d \<le> C"
    by blast
qed

theorem token_count_within_capacity_witness:
  "(\<exists>s. run (take 6 [Arrive, Arrive, Arrive, Arrive, Elapse 20000, Wake]) (RateLimiter 3 0) = Inr s \<and>
       maxTokens s = 3 \<and> 0 \<le> tokens s \<and> tokens s \<le> 3) \<and>
   (\<exists>d. d = directRun (take 6 [Call, Call, Call, Call, Pass 20000, Fire 3]) (DirectLimiter 3 0) \<and>
       maxTokens d = 3 \<and> 0 \<le> tokens d \<and> tokens d \<le> 3)"
  by (rule token_count_within_capacity
        [of 3 "[Arrive, Arrive, Arrive, Arrive, Elapse 20000, Wake]"
            "[Call, Call, Call, Call, Pass 20000, Fire 3]" 6 0])
     simp_all

subsection \<open>Tokens are granted in the order of arrival, when there is a queue\<close>

text \<open>
  Claim C2 says that the scheduler grants tokens in the order of arrival to all callers of
  \<^verbatim>\<open>waitForToken\<close>. The limiter of rateLimiter.js does, by its queue (the theorem after
  this one). The limiter that index.js declares has no queue and does not: below, three
  calls take the three tokens, call 3 finds none and sleeps, and call 4, which arrives
  20001 ms later and before the late timer of call 3 has run, is served at once. When the
  timer of call 3 runs, the token is gone and call 3 sleeps again. In index.js such calls
  come from the search form, whose handler runs once for every submission, and from
  \<^verbatim>\<open>initialize()\<close>, which is not awaited.
\<close>

theorem later_call_overtakes_without_queue:
  "directRun [Call, Call, Call, Call, Pass 20001, Call, Fire 3] (DirectLimiter 3 0) =
     \<lparr> tokens = 0, maxTokens = 3, lastRefill = 20001, clock = 20001,
       sleeping = [(3, 40001)], callers = 5,
       returned = [(0, True, 0), (1, True, 0), (2, True, 0), (4, True, 20001)] \<rparr>"
  by code_simp

text \<open>
  What claim C2 says, for the limiter with a queue (rateLimiter.js). Number the calls of
  \<^verbatim>\<open>waitForToken\<close> in the order in which they arrive. After any sequence of events the
  promises resolved so far are those of the calls \<open>0, ..., k - 1\<close>, resolved in this order,
  and the calls still waiting are \<open>k, ..., nextReq - 1\<close>, queued in this order: of two calls
  the earlier one is resolved first, and no call is resolved while an earlier one is
  pending. When the clock never goes back, the clock readings of the resolutions increase
  as well.
\<close>

theorem grants_follow_arrival_order:
  assumes "\<forall>e\<in>set es. forward e"
  shows "\<exists>s k. run es (RateLimiter C t0) = Inr s \<and> k \<le> nextReq s \<and>
           map fst (settled s) = [0..<k] \<and> waitQueue s = [k..<nextReq s] \<and>
           sorted (map (\<lambda>x. snd (snd x)) (settled s))"
  using assms by (rule queue_arrival_order)

theorem grants_follow_arrival_order_witness:
  "\<exists>s k. run [Arrive, Arrive, Arrive, Arrive, Elapse 20001, Arrive, Wake] (RateLimiter 3 0) = Inr s \<and>
     k \<le> nextReq s \<and> map fst (settled s) = [0..<k] \<and> waitQueue s = [k..<nextReq s] \<and>
     sorted (map (\<lambda>x. snd (snd x)) (settled s))"
  by (rule grants_follow_arrival_order
        [of "[Arrive, Arrive, Arrive, Arrive, Elapse 20001, Arrive, Wake]" 3 0]) simp

subsection \<open>The limiter never rejects and never fails\<close>

text \<open>
  Claim C8. After any sequence of events the limiter with a queue has produced no error;
  every promise it has settled was resolved with \<^verbatim>\<open>true\<close>, none was rejected; every call
  made so far is either still in the queue with its promise untouched, or out of the
  queue with its promise resolved exactly once. Every run of the loop of
  \<^verbatim>\<open>processQueue\<close> resolves the first \<open>k\<close> queued requests, for some \<open>k\<close>, and leaves the
  token count \<open>k\<close> below what the refill at its start made it: one token for each promise
  resolved. The limiter without a queue has no statement that can throw; each of its
  calls either sleeps on a timer or has returned exactly once, with \<^verbatim>\<open>true\<close>, and a run of
  the body of \<^verbatim>\<open>waitForToken\<close> returns exactly when it takes one token.
\<close>

theorem waitForToken_never_rejects:
  "(\<exists>s. run es (RateLimiter C t0) = Inr s \<and>
       (\<forall>x\<in>set (settled s). fst (snd x) = Resolved True) \<and>
       (\<forall>r<nextReq s.
          (r \<in> set (waitQueue s) \<and> count_list (map fst (settled s)) r = 0) \<or>
          (r \<notin> set (waitQueue s) \<and> count_list (map fst (settled s)) r = 1)) \<and>
       (\<forall>q. \<exists>k \<le> length (waitQueue q). \<exists>q'.
          processQueue q = Inr q' \<and> waitQueue q' = drop k (waitQueue q) \<and>
          settled q' = settled q @ map (\<lambda>r. (r, Resolved True, clock q)) (take k (waitQueue q)) \<and>
          (waitQueue q \<noteq> [] \<longrightarrow> tokens q' = tokens (refill q) - int k))) \<and>
   (\<exists>d. d = directRun ds (DirectLimiter C t0) \<and>
       (\<forall>x\<in>set (returned d). fst (snd x) = True) \<and>
       (\<forall>r<callers d.
          (r \<in> fst ` set (sleeping d) \<and> count_list (map fst (returned d)) r = 0) \<or>
          (r \<notin> fst ` set (sleeping d) \<and> count_list (map fst (returned d)) r = 1)) \<and>
       (\<forall>q r. (tokens (refill q) < 1 \<longrightarrow>
                  returned (directAttempt r q) = returned q \<and>
                  tokens (directAttempt r q) = tokens (refill q)) \<and>
               (1 \<le> tokens (refill q) \<longrightarrow>
                  returned (directAttempt r q) = returned q @ [(r, True, clock q)] \<and>
                  tokens (directAttempt r q) = tokens (refill q) - 1)))"
  using queue_never_rejects [of es C t0] direct_never_rejects [of ds C t0] by (rule conjI)

theorem waitForToken_never_rejects_witness:
  "\<exists>s. run [Arrive, Arrive, Arrive, Arrive, Arrive, Elapse 20000, Wake] (RateLimiter 3 0) = Inr s \<and>
       fst (snd (settled s ! 3)) = Resolved True \<and>
       count_list (map fst (settled s)) 3 = 1 \<and> 4 \<in> set (waitQueue s) \<and>
       count_list (map fst (settled s)) 4 = 0"
proof -
  let ?es = "[Arrive, Arrive, Arrive, Arrive, Arrive, Elapse 20000, Wake]"
  have r: "run ?es (RateLimiter 3 0) =
      Inr \<lparr> tokens = 0, maxTokens = 3, lastRefill = 20000, clock = 20000, waitQueue = [4],
            timer = Some 40000, nextReq = 5,
            settled = [(0, Resolved True, 0), (1, Resolved True, 0), (2, Resolved True, 0),
                       (3, Resolved True, 20000)] \<rparr>"
    by code_simp
  from waitForToken_never_rejects [of ?es 3 0 "[]", THEN conjunct1] obtain s where
    s: "run ?es (RateLimiter 3 0) = Inr s"
    and t: "\<forall>x\<in>set (settled s). fst (snd x) = Resolved True"
    and c: "\<forall>r<nextReq s.
          (r \<in> set (waitQueue s) \<and> count_list (map fst (settled s)) r = 0) \<or>
          (r \<notin> set (waitQueue s) \<and> count_list (map fst (settled s)) r = 1)"
    by blast
  have e: "s = \<lparr> tokens = 0, maxTokens = 3, lastRefill = 20000, clock = 20000, waitQueue = [4],
            timer = Some 40000, nextReq = 5,
            settled = [(0, Resolved True, 0), (1, Resolved True, 0), (2, Resolved True, 0),
                       (3, Resolved True, 20000)] \<rparr>"
    using s r by simp
  have "fst (snd (settled s ! 3)) = Resolved True" using t e by simp
  moreover have "count_list (map fst (settled s)) 3 = 1 \<and> 4 \<in> set (waitQueue s) \<and>
       count_list (map fst (settled s)) 4 = 0"
    using c e by simp
  ultimately show ?thesis using s by blast
qed

subsection \<open>A burst of \<open>C\<close> calls, and the call after it\<close>

text \<open>
  Claim C4. On a new limiter of positive capacity \<open>C\<close>, \<open>C\<close> calls in a row are all
  granted at once: nobody waits, no timer was set, and no token is left. In any sequence
  of events whatever, a grant after the first \<open>C\<close> grants happens when the clock reads at
  least \<open>60000 / C\<close> ms more than at construction; with a queue the grants come in the
  order of the calls, so that this is the grant to the \<open>C + 1\<close>-th call or to a later one.
  When the \<open>C + 1\<close>-th call follows the burst at once and its timer fires as soon as it is
  due, that call is granted \<open>ceiling (60000 / C)\<close> ms after construction. All of this holds
  with and without a queue.
\<close>

theorem burst_then_wait:
  assumes "0 < C"
  shows "((\<exists>s. run (replicate (nat C) Arrive) (RateLimiter C t0) = Inr s \<and>
              settled s = map (\<lambda>r. (r, Resolved True, t0)) [0..<nat C] \<and>
              waitQueue s = [] \<and> timer s = None \<and> tokens s = 0) \<and>
         (\<forall>es. \<exists>s. run es (RateLimiter C t0) = Inr s \<and>
              (\<forall>i<length (settled s). fst (settled s ! i) = i \<and>
                 (nat C \<le> i \<longrightarrow> 60000 / real_of_int C \<le> real_of_int (snd (snd (settled s ! i)) - t0)))) \<and>
         (\<exists>s. run (replicate (nat C) Arrive @ [Arrive, Elapse (waitTime (RateLimiter C t0)), Wake])
                 (RateLimiter C t0) = Inr s \<and>
              settled s = map (\<lambda>r. (r, Resolved True, t0)) [0..<nat C] @
                          [(nat C, Resolved True, t0 + waitTime (RateLimiter C t0))])) \<and>
        ((\<exists>d. d = directRun (replicate (nat C) Call) (DirectLimiter C t0) \<and>
              returned d = map (\<lambda>r. (r, True, t0)) [0..<nat C] \<and>
              sleeping d = [] \<and> tokens d = 0) \<and>
         (\<forall>ds. \<exists>d. d = directRun ds (DirectLimiter C t0) \<and>
              (\<forall>i<length (returned d).
                 nat C \<le> i \<longrightarrow> 60000 / real_of_int C \<le> real_of_int (snd (snd (returned d ! i)) - t0))) \<and>
         (\<exists>d. d = directRun (replicate (nat C) Call @
                               [Call, Pass (waitTime (DirectLimiter C t0)), Fire (nat C)])
                     (DirectLimiter C t0) \<and>
              returned d = map (\<lambda>r. (r, True, t0)) [0..<nat C] @
                           [(nat C, True, t0 + waitTime (DirectLimiter C t0))]))"
  using queue_burst_then_wait [OF assms, of t0] direct_burst_then_wait [OF assms, of t0]
  by (rule conjI)

theorem burst_then_wait_witness:
  "(0::int) < 3 \<and>
   (\<exists>s. run (replicate 3 Arrive @ [Arrive, Elapse 20000, Wake]) (RateLimiter 3 0) = Inr s \<and>
        settled s = [(0, Resolved True, 0), (1, Resolved True, 0), (2, Resolved True, 0),
                     (3, Resolved True, 20000)])"
proof -
  have w: "waitTime (RateLimiter 3 0) = 20000" by (simp add: waitTime_def RateLimiter_def)
  have u: "[0..<3] = [0, 1, 2]" by (simp add: upt_rec)
  show ?thesis
    using burst_then_wait [of 3 0, THEN conjunct1, THEN conjunct2, THEN conjunct2]
    unfolding w by (simp add: u)
qed

section \<open>A caller alone with the limiter\<close>

lemma settlementOf_last:
  assumes "r \<notin> fst ` set xs" and "settled s = xs @ [(r, v, t)]"
  shows "settlementOf r s = Some v"
proof -
  have "map_of xs r = None" using assms(1) by (simp add: map_of_eq_None_iff)
  then show ?thesis using assms(2) by (simp add: settlementOf_def map_add_def)
qed

lemma settlementOf_none:
  assumes "r \<notin> fst ` set (settled s)"
  shows "settlementOf r s = None"
  using assms by (simp add: settlementOf_def map_of_eq_None_iff)

lemma awaitRequest_resolved:
  "settlementOf r s = Some (Resolved v) \<Longrightarrow> awaitRequest r s = Some (Inr s)"
  by (subst awaitRequest.simps) simp

lemma awaitRequest_wake:
  assumes "settlementOf r s = None" and "timer s = Some due"
    and "step Wake (s\<lparr> clock := max (clock s) due \<rparr>) = Inr s'"
  shows "awaitRequest r s = awaitRequest r s'"
  using assms by (subst awaitRequest.simps) (simp del: step.simps)

lemma idle_fresh: "idle C s \<Longrightarrow> nextReq s \<notin> fst ` set (settled s)"
proof -
  assume "idle C s"
  then have "map fst (settled s) = [0..<nextReq s]" by (clarsimp simp: idle_def fifo_def)
  then have "set (map fst (settled s)) = {0..<nextReq s}" by simp
  then show ?thesis by (simp del: set_map add: set_map [symmetric])
qed

lemma waitTime_pos: "0 < maxTokens s \<Longrightarrow> 0 < waitTime s"
proof -
  assume C: "0 < maxTokens s"
  have "60000 \<le> waitTime s * maxTokens s" using C by (rule waitTime_earns)
  then have "0 < waitTime s * maxTokens s" by linarith
  then show ?thesis using C by (simp add: zero_less_mult_iff)
qed

lemma snapshot_refill: "refill (snapshot s) = snapshot (refill s)"
  by (simp add: snapshot_def refill_def refillAmount_def)

lemma snapshot_fields [simp]:
  "tokens (snapshot s) = tokens s" "maxTokens (snapshot s) = maxTokens s"
  "lastRefill (snapshot s) = lastRefill s" "clock (snapshot s) = clock s"
  "waitTime (snapshot s) = waitTime s"
  by (simp_all add: snapshot_def waitTime_def)

lemma snapshot_update:
  "(snapshot s)\<lparr> clock := c \<rparr> = snapshot (s\<lparr> clock := c \<rparr>)"
  "(snapshot s)\<lparr> tokens := n \<rparr> = snapshot (s\<lparr> tokens := n \<rparr>)"
  by (simp_all add: snapshot_def)

lemma takeToken_at_once:
  assumes "1 \<le> tokens (refill s)"
  shows "takeToken (snapshot s) = snapshot ((refill s)\<lparr> tokens := tokens (refill s) - 1 \<rparr>)"
  unfolding takeToken_def Let_def snapshot_refill
  using assms by (simp add: snapshot_update del: refill_fields)

lemma takeToken_after_wait:
  assumes "\<not> 1 \<le> tokens (refill s)"
  shows "takeToken (snapshot s) =
           snapshot ((refill ((refill s)\<lparr> clock := clock s + waitTime s \<rparr>))
                       \<lparr> tokens := tokens (refill ((refill s)\<lparr> clock := clock s + waitTime s \<rparr>)) - 1 \<rparr>)"
proof -
  have w: "waitTime (refill s) = waitTime s" by (simp add: waitTime_def refill_def)
  have c: "clock (refill s) = clock s" by (simp add: refill_def)
  have "takeToken (snapshot s) =
          (refill ((snapshot (refill s))\<lparr> clock := clock s + waitTime s \<rparr>))
            \<lparr> tokens := tokens (refill ((snapshot (refill s))\<lparr> clock := clock s + waitTime s \<rparr>)) - 1 \<rparr>"
    unfolding takeToken_def Let_def snapshot_refill using assms by (simp only: snapshot_fields w c if_False)
  then show ?thesis by (simp only: snapshot_update snapshot_refill snapshot_fields)
qed

lemma token_idle:
  assumes i: "idle C s"
  shows "\<exists>s1 s2. waitForToken s = Inr s1 \<and> awaitRequest (nextReq s) s1 = Some (Inr s2) \<and>
           idle C s2 \<and> nextReq s2 = Suc (nextReq s) \<and> clock s \<le> clock s2 \<and>
           settled s2 = settled s @ [(nextReq s, Resolved True, clock s2)] \<and>
           snapshot s2 = takeToken (snapshot s)"
proof -
  define r where "r = nextReq s"
  have C: "0 < C" and b: "bounded C s" and q: "waitQueue s = []" and tm: "timer s = None"
    using i by (simp_all add: idle_def)
  have C0: "0 \<le> C" using C by simp
  have fresh: "r \<notin> fst ` set (settled s)" unfolding r_def using i by (rule idle_fresh)
  have b1: "bounded C (refill s)" using refill_bounded [OF C0 b] .
  show ?thesis
  proof (cases "1 \<le> tokens (refill s)")
    case True
    define s1 where "s1 = (refill s)\<lparr> tokens := tokens (refill s) - 1, nextReq := Suc (nextReq s),
            settled := settled s @ [(nextReq s, Resolved True, clock s)] \<rparr>"
    have w: "waitForToken s = Inr s1" unfolding s1_def using q True by (rule arrive_granted)
    have "settlementOf r s1 = Some (Resolved True)"
      by (rule settlementOf_last [OF fresh]) (simp add: s1_def r_def)
    then have a: "awaitRequest r s1 = Some (Inr s1)" by (rule awaitRequest_resolved)
    have ids: "map fst (settled s) = [0..<nextReq s]"
      using i by (clarsimp simp: idle_def fifo_def)
    have tr: "truthful s" using i by (simp add: idle_def)
    have "bounded C s1" using b1 True by (simp add: bounded_def s1_def)
    moreover have "fifo s1" using ids q by (simp add: fifo_def s1_def)
    moreover have "truthful s1" using tr by (simp add: truthful_def s1_def)
    ultimately have "idle C s1" using C q tm by (simp add: idle_def s1_def)
    moreover have "snapshot s1 = takeToken (snapshot s)"
      unfolding takeToken_at_once [OF True] by (simp add: snapshot_def s1_def)
    moreover have "nextReq s1 = Suc (nextReq s)" "clock s \<le> clock s1"
      "settled s1 = settled s @ [(nextReq s, Resolved True, clock s1)]"
      by (simp_all add: s1_def)
    ultimately show ?thesis using w a unfolding r_def by blast
  next
    case False
    define due where "due = clock s + waitTime s"
    define s1 where "s1 = (refill s)\<lparr> waitQueue := [nextReq s], nextReq := Suc (nextReq s),
            timer := Some due \<rparr>"
    define s1' where "s1' = s1\<lparr> clock := due \<rparr>"
    have w: "waitForToken s = Inr s1" unfolding s1_def due_def using q False
      by (intro arrive_suspended) simp_all
    have m: "maxTokens s = C" using b by (simp add: bounded_def)
    have wp: "0 < waitTime s" using waitTime_pos [of s] m C by simp
    have mx: "max (clock s1) due = due" using wp by (simp add: s1_def due_def)
    have amt: "1 \<le> refillAmount s1'"
    proof -
      have "refillAmount s1' = (waitTime s * C) div 60000"
        by (simp add: refillAmount_def s1'_def s1_def due_def m)
      moreover have "60000 \<le> waitTime s * C" using waitTime_earns [of s] m C by simp
      then have "1 \<le> (waitTime s * C) div 60000" by (simp add: pos_imp_zdiv_pos_iff)
      ultimately show ?thesis by simp
    qed
    have t0: "0 \<le> tokens s1'" using b1 by (simp add: s1'_def s1_def bounded_def)
    have t1: "1 \<le> tokens (refill s1')"
      using amt t0 C m by (simp add: refill_def s1'_def s1_def)
    define s2 where "s2 = (refill s1')\<lparr> waitQueue := [], timer := None, tokens := tokens (refill s1') - 1,
            settled := settled s1' @ [(r, Resolved True, clock s1')] \<rparr>"
    have wk: "step Wake s1' = Inr s2"
      unfolding s2_def
      by (rule wake_granted [of s1' due r, OF _ _ _ t1]) (simp_all add: s1'_def s1_def r_def)
    have n1: "settlementOf r s1 = None"
      by (rule settlementOf_none) (use fresh in \<open>simp add: s1_def\<close>)
    have wk': "step Wake (s1\<lparr> clock := max (clock s1) due \<rparr>) = Inr s2"
      unfolding mx using wk by (simp only: s1'_def)
    have a1: "awaitRequest r s1 = awaitRequest r s2"
      by (rule awaitRequest_wake [OF n1 _ wk']) (simp add: s1_def)
    have "settlementOf r s2 = Some (Resolved True)"
      by (rule settlementOf_last [OF fresh]) (simp add: s2_def s1'_def s1_def)
    then have a2: "awaitRequest r s2 = Some (Inr s2)" by (rule awaitRequest_resolved)
    have ids: "map fst (settled s) = [0..<nextReq s]"
      using i by (clarsimp simp: idle_def fifo_def)
    have tr: "truthful s" using i by (simp add: idle_def)
    have hi: "tokens (refill s1') \<le> C" by (simp add: refill_def s1'_def s1_def m)
    have "bounded C s2" using t1 hi by (simp add: bounded_def s2_def s1'_def s1_def m)
    moreover have "fifo s2" using ids by (simp add: fifo_def s2_def s1'_def s1_def r_def)
    moreover have "truthful s2" using tr by (simp add: truthful_def s2_def s1'_def s1_def)
    ultimately have "idle C s2" using C by (simp add: idle_def s2_def)
    moreover have "clock s \<le> clock s2" using wp by (simp add: s2_def s1'_def due_def)
    moreover have "nextReq s2 = Suc (nextReq s)" by (simp add: s2_def s1'_def s1_def)
    moreover have "settled s2 = settled s @ [(nextReq s, Resolved True, clock s2)]"
      by (simp add: s2_def s1'_def s1_def r_def)
    moreover have "snapshot s2 = takeToken (snapshot s)"
      unfolding takeToken_after_wait [OF False]
      by (simp add: snapshot_def s2_def s1'_def s1_def due_def refill_def refillAmount_def)
    ultimately show ?thesis using w a1 a2 unfolding r_def by auto
  qed
qed

lemma awaitCall_returned:
  "map_of (returned s) r = Some v \<Longrightarrow> awaitCall r s = Some s"
  by (subst awaitCall.simps) simp

lemma awaitCall_fire:
  assumes "map_of (returned s) r = None" and "map_of (sleeping s) r = Some due"
  shows "awaitCall r s = awaitCall r (directStep (Fire r) (s\<lparr> clock := max (clock s) due \<rparr>))"
  using assms by (subst awaitCall.simps) (simp del: directStep.simps)

lemma directIdle_fresh: "directIdle C s \<Longrightarrow> callers s \<notin> fst ` set (returned s)"
proof -
  assume "directIdle C s"
  then have "fst ` set (returned s) = {0..<callers s}"
    by (clarsimp simp: directIdle_def directTidy_def)
  then show ?thesis by simp
qed

lemma map_of_last:
  assumes "r \<notin> fst ` set xs"
  shows "map_of (xs @ [(r, v)]) r = Some v"
proof -
  have "map_of xs r = None" using assms by (simp add: map_of_eq_None_iff)
  then show ?thesis by (simp add: map_add_def)
qed

lemma directTidy_clock [simp]: "directTidy (s\<lparr> clock := c \<rparr>) = directTidy s"
  by (simp add: directTidy_def)

lemma token_directIdle:
  assumes i: "directIdle C s"
  shows "\<exists>s2. awaitCall (callers s) (directStep Call s) = Some s2 \<and> directIdle C s2 \<and>
           callers s2 = Suc (callers s) \<and> clock s \<le> clock s2 \<and>
           returned s2 = returned s @ [(callers s, True, clock s2)] \<and>
           snapshot s2 = takeToken (snapshot s)"
proof -
  define r where "r = callers s"
  define s0 where "s0 = s\<lparr> callers := Suc r \<rparr>"
  have C: "0 < C" and b: "bounded C s" and q: "sleeping s = []" and td: "directTidy s"
    using i by (simp_all add: directIdle_def)
  have C0: "0 \<le> C" using C by simp
  have m: "maxTokens s = C" using b by (simp add: bounded_def)
  have fresh: "r \<notin> fst ` set (returned s)" unfolding r_def using i by (rule directIdle_fresh)
  have b0: "bounded C s0" using b by (simp add: bounded_def s0_def)
  have b1: "bounded C (refill s0)" using refill_bounded [OF C0 b0] .
  have st: "directStep Call s = directAttempt r s0" by (simp add: r_def s0_def)
  have t1: "directTidy (directStep Call s)" using td by (rule directStep_tidy)
  have ts: "tokens (refill s0) = tokens (refill s)"
    by (simp add: refill_def refillAmount_def s0_def)
  show ?thesis
  proof (cases "1 \<le> tokens (refill s0)")
    case True
    define s1 where "s1 = (refill s0)\<lparr> tokens := tokens (refill s0) - 1,
                                       returned := returned s @ [(r, True, clock s)] \<rparr>"
    have e: "directStep Call s = s1"
      unfolding st using True by (simp add: directAttempt_def Let_def s1_def s0_def)
    have "map_of (returned s1) r = Some (True, clock s)"
      unfolding s1_def using map_of_last [OF fresh] by simp
    then have a: "awaitCall r s1 = Some s1" by (rule awaitCall_returned)
    have "bounded C s1" using b1 True by (simp add: bounded_def s1_def)
    moreover have "directTidy s1" using t1 e by simp
    moreover have "sleeping s1 = []" using q by (simp add: s1_def s0_def)
    ultimately have "directIdle C s1" using C by (simp add: directIdle_def)
    moreover have "callers s1 = Suc (callers s)" "clock s \<le> clock s1"
      "returned s1 = returned s @ [(callers s, True, clock s1)]"
      by (simp_all add: s1_def s0_def r_def)
    moreover have "snapshot s1 = takeToken (snapshot s)"
    proof -
      have "1 \<le> tokens (refill s)" using True ts by simp
      then show ?thesis
        unfolding takeToken_at_once [OF \<open>1 \<le> tokens (refill s)\<close>]
        by (simp add: snapshot_def s1_def s0_def refill_def refillAmount_def)
    qed
    ultimately show ?thesis using a e unfolding r_def by auto
  next
    case False
    define due where "due = clock s + waitTime s"
    define s1 where "s1 = (refill s0)\<lparr> sleeping := [(r, due)] \<rparr>"
    define s1' where "s1' = s1\<lparr> clock := due \<rparr>"
    define s1'' where "s1'' = s1'\<lparr> sleeping := [] \<rparr>"
    have e: "directStep Call s = s1"
      unfolding st using False q
      by (simp add: directAttempt_def Let_def s1_def s0_def due_def waitTime_def)
    have wp: "0 < waitTime s" using waitTime_pos [of s] m C by simp
    have mx: "max (clock s1) due = due" using wp by (simp add: s1_def s0_def due_def)
    have n1: "map_of (returned s1) r = None"
      using fresh by (simp add: s1_def s0_def map_of_eq_None_iff)
    have sl: "map_of (sleeping s1) r = Some due" by (simp add: s1_def)
    have a1: "awaitCall r s1 = awaitCall r (directStep (Fire r) s1')"
      using awaitCall_fire [OF n1 sl] unfolding mx s1'_def .
    have f: "directStep (Fire r) s1' = directAttempt r s1''"
      by (simp add: s1'_def s1_def s1''_def)
    have amt: "1 \<le> refillAmount s1''"
    proof -
      have "refillAmount s1'' = (waitTime s * C) div 60000"
        by (simp add: refillAmount_def s1''_def s1'_def s1_def s0_def due_def m)
      moreover have "60000 \<le> waitTime s * C" using waitTime_earns [of s] m C by simp
      then have "1 \<le> (waitTime s * C) div 60000" by (simp add: pos_imp_zdiv_pos_iff)
      ultimately show ?thesis by simp
    qed
    have t0: "0 \<le> tokens s1''" using b1 by (simp add: s1''_def s1'_def s1_def bounded_def)
    have t2: "1 \<le> tokens (refill s1'')"
      using amt t0 C m by (simp add: refill_def s1''_def s1'_def s1_def s0_def)
    define s2 where "s2 = (refill s1'')\<lparr> tokens := tokens (refill s1'') - 1,
                                        returned := returned s @ [(r, True, due)] \<rparr>"
    have f2: "directAttempt r s1'' = s2"
      using t2 by (simp add: directAttempt_def Let_def s2_def s1''_def s1'_def s1_def s0_def)
    have "map_of (returned s2) r = Some (True, due)"
      unfolding s2_def using map_of_last [OF fresh] by simp
    then have a2: "awaitCall r s2 = Some s2" by (rule awaitCall_returned)
    have "directTidy s1'" using t1 e by (simp add: s1'_def)
    then have "directTidy (directStep (Fire r) s1')" by (rule directStep_tidy)
    then have td2: "directTidy s2" using f f2 by simp
    have hi: "tokens (refill s1'') \<le> C"
      by (simp add: refill_def s1''_def s1'_def s1_def s0_def m)
    have "bounded C s2"
      using t2 hi by (simp add: bounded_def s2_def s1''_def s1'_def s1_def s0_def m)
    moreover have "sleeping s2 = []" by (simp add: s2_def s1''_def)
    ultimately have "directIdle C s2" using C td2 by (simp add: directIdle_def)
    moreover have "clock s \<le> clock s2" using wp by (simp add: s2_def s1''_def s1'_def due_def)
    moreover have "callers s2 = Suc (callers s)"
      by (simp add: s2_def s1''_def s1'_def s1_def s0_def r_def)
    moreover have "returned s2 = returned s @ [(callers s, True, clock s2)]"
      by (simp add: s2_def s1''_def s1'_def r_def)
    moreover have "snapshot s2 = takeToken (snapshot s)"
    proof -
      have n: "\<not> 1 \<le> tokens (refill s)" using False ts by simp
      show ?thesis
        unfolding takeToken_after_wait [OF n]
        by (simp add: snapshot_def s2_def s1''_def s1'_def s1_def s0_def due_def refill_def
              refillAmount_def)
    qed
    ultimately show ?thesis using e a1 f f2 a2 unfolding r_def by auto
  qed
qed

lemma acquire_ready:
  assumes "ready C (limiter a)"
  shows "\<exists>l2. acquire a = Some (Inr (emit (Token (calls (limiter a))) (a\<lparr> limiter := l2 \<rparr>))) \<and>
           ready C l2 \<and> calls l2 = Suc (calls (limiter a)) \<and> now (limiter a) \<le> now l2 \<and>
           granted l2 = granted (limiter a) @ [calls (limiter a)] \<and> took (limiter a) l2"
proof (cases "limiter a")
  case (Queued s)
  then have "idle C s" using assms by simp
  from token_idle [OF this] obtain s1 s2 where
    "waitForToken s = Inr s1" "awaitRequest (nextReq s) s1 = Some (Inr s2)"
    "idle C s2" "nextReq s2 = Suc (nextReq s)" "clock s \<le> clock s2"
    "settled s2 = settled s @ [(nextReq s, Resolved True, clock s2)]"
    "snapshot s2 = takeToken (snapshot s)"
    by blast
  then show ?thesis using Queued
    by (intro exI [of _ "Queued s2"]) (simp add: acquire_def Let_def took_def)
next
  case (Direct s)
  then have "directIdle C s" using assms by simp
  from token_directIdle [OF this] obtain s2 where
    "awaitCall (callers s) (directStep Call s) = Some s2"
    "directIdle C s2" "callers s2 = Suc (callers s)" "clock s \<le> clock s2"
    "returned s2 = returned s @ [(callers s, True, clock s2)]"
    "snapshot s2 = takeToken (snapshot s)"
    by blast
  then show ?thesis using Direct
    by (intro exI [of _ "Direct s2"]) (simp add: acquire_def Let_def took_def del: directStep.simps)
qed

text \<open>One attempt: the body of the \<^verbatim>\<open>try\<close> block.\<close>

lemma embed_ready:
  assumes "ready C (limiter a)"
  shows "\<exists>a1. embed env t a = Some (embeddings_create env (creates a) t, a1) \<and>
           ready C (limiter a1) \<and> trace a1 = trace a @ [Token (calls (limiter a)), Create t] \<and>
           creates a1 = Suc (creates a) \<and> chats a1 = chats a \<and> inserts a1 = inserts a \<and>
           rpcs a1 = rpcs a \<and> calls (limiter a1) = Suc (calls (limiter a)) \<and>
           now (limiter a) \<le> now (limiter a1) \<and>
           granted (limiter a1) = granted (limiter a) @ [calls (limiter a)] \<and>
           took (limiter a) (limiter a1)"
proof -
  from acquire_ready [OF assms] obtain l2 where
    "acquire a = Some (Inr (emit (Token (calls (limiter a))) (a\<lparr> limiter := l2 \<rparr>)))"
    "ready C l2" "calls l2 = Suc (calls (limiter a))" "now (limiter a) \<le> now l2"
    "granted l2 = granted (limiter a) @ [calls (limiter a)]" "took (limiter a) l2"
    by blast
  then show ?thesis by (simp add: embed_def emit_def)
qed

lemma idle_clock: "idle C s \<Longrightarrow> 0 \<le> d \<Longrightarrow> idle C (s\<lparr> clock := clock s + d \<rparr>)"
  by (clarsimp simp: idle_def bounded_def fifo_def truthful_def)

lemma directIdle_clock:
  "directIdle C s \<Longrightarrow> 0 \<le> d \<Longrightarrow> directIdle C (s\<lparr> clock := clock s + d \<rparr>)"
  by (clarsimp simp: directIdle_def bounded_def)

lemma ready_advance: "ready C l \<Longrightarrow> 0 \<le> d \<Longrightarrow> ready C (advance d l)"
  by (cases l) (simp_all add: idle_clock directIdle_clock)

lemma advance_fields [simp]:
  "calls (advance d l) = calls l" "now (advance d l) = now l + d"
  "granted (advance d l) = granted l"
  by (cases l; simp)+

lemma cooled_fields:
  "trace (cooled e i retries a1) =
     trace a1 @ [ConsoleError ''Embedding error:'' [] e,
                 ConsoleLog ''Rate limited, waiting 25 seconds before retry'' [i + 1, retries],
                 Delay 25000]"
  "creates (cooled e i retries a1) = creates a1" "chats (cooled e i retries a1) = chats a1"
  "inserts (cooled e i retries a1) = inserts a1" "rpcs (cooled e i retries a1) = rpcs a1"
  "limiter (cooled e i retries a1) = advance 25000 (limiter a1)"
  by (simp_all add: cooled_def delay_def emit_def)

lemma retryLoop_exhausted:
  "\<not> i < retries \<Longrightarrow> retryLoop env t retries i a = Some (Inl maxRetriesError, a)"
  by (simp add: retryLoop.simps)

lemma retryLoop_success:
  "i < retries \<Longrightarrow> embed env t a = Some (Inr v, a1) \<Longrightarrow>
   retryLoop env t retries i a = Some (Inr v, a1)"
  by (simp add: retryLoop.simps [of env t retries i a])

lemma retryLoop_other:
  "i < retries \<Longrightarrow> embed env t a = Some (Inl e, a1) \<Longrightarrow> status e \<noteq> Some 429 \<Longrightarrow>
   retryLoop env t retries i a = Some (Inl e, emit (ConsoleError ''Embedding error:'' [] e) a1)"
  by (simp add: retryLoop.simps [of env t retries i a])

lemma retryLoop_throttled:
  "i < retries \<Longrightarrow> embed env t a = Some (Inl e, a1) \<Longrightarrow> status e = Some 429 \<Longrightarrow>
   retryLoop env t retries i a = retryLoop env t retries (Suc i) (cooled e i retries a1)"
  by (simp add: retryLoop.simps [of env t retries i a] cooled_def)

section \<open>The retrying invoker\<close>

lemma retryLoop_footprint:
  assumes "ready C (limiter a)"
  shows "\<exists>res a' n tr. retryLoop env t retries i a = Some (res, a') \<and> ready C (limiter a') \<and>
      n \<le> retries - i \<and> (i < retries \<longrightarrow> 1 \<le> n) \<and>
      trace a' = trace a @ tr \<and> list_all (fromInvoker t) tr \<and>
      filter tokenOrCreate tr =
        concat (map (\<lambda>j. [Token (calls (limiter a) + j), Create t]) [0..<n]) \<and>
      creates a' = creates a + n \<and> chats a' = chats a \<and> inserts a' = inserts a \<and>
      rpcs a' = rpcs a \<and> calls (limiter a') = calls (limiter a) + n \<and>
      now (limiter a) \<le> now (limiter a') \<and>
      granted (limiter a') =
        granted (limiter a) @ [calls (limiter a)..<calls (limiter a) + n]"
  using assms
proof (induction "retries - i" arbitrary: i a)
  case 0
  then have "retryLoop env t retries i a = Some (Inl maxRetriesError, a)"
    by (intro retryLoop_exhausted) simp
  then show ?case using "0.prems" "0.hyps"
    by (intro exI [of _ "Inl maxRetriesError"] exI [of _ a] exI [of _ 0] exI [of _ "[]"]) simp
next
  case (Suc m)
  have lt: "i < retries" using Suc.hyps(2) by simp
  let ?r = "calls (limiter a)"
  from embed_ready [OF Suc.prems, of env t] obtain a1 where
    em: "embed env t a = Some (embeddings_create env (creates a) t, a1)"
    and i1: "ready C (limiter a1)" and tr1: "trace a1 = trace a @ [Token ?r, Create t]"
    and f1: "creates a1 = Suc (creates a)" "chats a1 = chats a" "inserts a1 = inserts a"
      "rpcs a1 = rpcs a" "calls (limiter a1) = Suc ?r" "now (limiter a) \<le> now (limiter a1)"
      "granted (limiter a1) = granted (limiter a) @ [?r]"
    by blast
  show ?case
  proof (cases "embeddings_create env (creates a) t")
    case (Inr v)
    have "retryLoop env t retries i a = Some (Inr v, a1)"
      using lt em Inr by (intro retryLoop_success) simp_all
    then show ?thesis using i1 tr1 f1 lt
      by (intro exI [of _ "Inr v"] exI [of _ a1] exI [of _ 1] exI [of _ "[Token ?r, Create t]"])
         simp
  next
    case (Inl e)
    show ?thesis
    proof (cases "status e = Some 429")
      case False
      let ?a' = "emit (ConsoleError ''Embedding error:'' [] e) a1"
      have "retryLoop env t retries i a = Some (Inl e, ?a')"
        using lt em Inl False by (intro retryLoop_other) simp_all
      then show ?thesis using i1 tr1 f1 lt
        by (intro exI [of _ "Inl e"] exI [of _ ?a'] exI [of _ 1]
              exI [of _ "[Token ?r, Create t, ConsoleError ''Embedding error:'' [] e]"])
           (simp add: emit_def)
    next
      case True
      define a2 where "a2 = cooled e i retries a1"
      have st: "retryLoop env t retries i a = retryLoop env t retries (Suc i) a2"
        unfolding a2_def using lt em Inl True by (intro retryLoop_throttled) simp_all
      have i2: "ready C (limiter a2)"
        using ready_advance [OF i1, of 25000] by (simp add: a2_def cooled_fields)
      have m: "m = retries - Suc i" using Suc.hyps(2) by simp
      from Suc.hyps(1) [OF m i2] obtain res a' n tr where
        0: "retryLoop env t retries (Suc i) a2 = Some (res, a')" and 1: "ready C (limiter a')"
        and 2: "n \<le> retries - Suc i" and 3: "trace a' = trace a2 @ tr"
        and 4: "list_all (fromInvoker t) tr"
        and 5: "filter tokenOrCreate tr =
                  concat (map (\<lambda>j. [Token (calls (limiter a2) + j), Create t]) [0..<n])"
        and 6: "creates a' = creates a2 + n" "chats a' = chats a2" "inserts a' = inserts a2"
          "rpcs a' = rpcs a2" "calls (limiter a') = calls (limiter a2) + n"
          "now (limiter a2) \<le> now (limiter a')"
        and 7: "granted (limiter a') =
                  granted (limiter a2) @ [calls (limiter a2)..<calls (limiter a2) + n]"
        by blast
      define tr' where "tr' = [Token ?r, Create t, ConsoleError ''Embedding error:'' [] e,
                  ConsoleLog ''Rate limited, waiting 25 seconds before retry'' [i + 1, retries],
                  Delay 25000] @ tr"
      have n2: "calls (limiter a2) = Suc ?r" using f1 by (simp add: a2_def cooled_fields)
      have A: "retryLoop env t retries i a = Some (res, a')" using st 0 by simp
      have B: "Suc n \<le> retries - i" using 2 lt by simp
      have B': "i < retries \<longrightarrow> 1 \<le> Suc n" by simp
      have D: "trace a' = trace a @ tr'" using 3 tr1 by (simp add: tr'_def a2_def cooled_fields)
      have E: "list_all (fromInvoker t) tr'" using 4 by (simp add: tr'_def)
      have F: "filter tokenOrCreate tr' =
                  concat (map (\<lambda>j. [Token (?r + j), Create t]) [0..<Suc n])"
        unfolding map_upt_Suc using 5 n2 by (simp add: tr'_def)
      have G: "creates a' = creates a + Suc n" "chats a' = chats a" "inserts a' = inserts a"
        "rpcs a' = rpcs a" "calls (limiter a') = ?r + Suc n" "now (limiter a) \<le> now (limiter a')"
        using 6 f1 n2 by (simp_all add: a2_def cooled_fields)
      have u: "[?r..<?r + Suc n] = ?r # [Suc ?r..<Suc ?r + n]" by (simp add: upt_conv_Cons)
      have g2: "granted (limiter a2) = granted (limiter a) @ [?r]"
        using f1 by (simp add: a2_def cooled_fields)
      have H: "granted (limiter a') = granted (limiter a) @ [?r..<?r + Suc n]"
        unfolding u using 7 g2 n2 by simp
      show ?thesis using A 1 B B' D E F G H by blast
    qed
  qed
qed

lemma throttled_iff:
  "throttled env t k \<longleftrightarrow> (\<exists>e. embeddings_create env k t = Inl e \<and> status e = Some 429)"
  by (auto simp: throttled_def split: sum.splits)

lemma retryLoop_all_throttled:
  assumes "ready C (limiter a)" and "\<forall>j<retries - i. throttled env t (creates a + j)"
  shows "\<exists>a'. retryLoop env t retries i a = Some (Inl maxRetriesError, a') \<and> ready C (limiter a') \<and>
      creates a' = creates a + (retries - i) \<and>
      count_list (trace a') (Delay 25000) = count_list (trace a) (Delay 25000) + (retries - i) \<and>
      (i < retries \<longrightarrow> last (trace a') = Delay 25000) \<and>
      now (limiter a) + 25000 * int (retries - i) \<le> now (limiter a')"
  using assms
proof (induction "retries - i" arbitrary: i a)
  case 0
  then have "retryLoop env t retries i a = Some (Inl maxRetriesError, a)"
    by (intro retryLoop_exhausted) simp
  then show ?case using "0.prems" "0.hyps" by simp
next
  case (Suc m)
  have lt: "i < retries" using Suc.hyps(2) by simp
  have m: "m = retries - Suc i" using Suc.hyps(2) by simp
  from Suc.prems(2) lt have "throttled env t (creates a)" by (metis add.right_neutral zero_less_diff)
  then obtain e where e: "embeddings_create env (creates a) t = Inl e" "status e = Some 429"
    unfolding throttled_iff by blast
  from embed_ready [OF Suc.prems(1), of env t] obtain a1 where
    em: "embed env t a = Some (embeddings_create env (creates a) t, a1)"
    and i1: "ready C (limiter a1)"
    and tr1: "trace a1 = trace a @ [Token (calls (limiter a)), Create t]"
    and f1: "creates a1 = Suc (creates a)" "now (limiter a) \<le> now (limiter a1)"
    by blast
  define a2 where "a2 = cooled e i retries a1"
  have st: "retryLoop env t retries i a = retryLoop env t retries (Suc i) a2"
    unfolding a2_def using lt em e by (intro retryLoop_throttled) simp_all
  have i2: "ready C (limiter a2)"
    using ready_advance [OF i1, of 25000] by (simp add: a2_def cooled_fields)
  have th2: "\<forall>j<retries - Suc i. throttled env t (creates a2 + j)"
  proof (intro allI impI)
    fix j assume "j < retries - Suc i"
    then have "Suc j < retries - i" by simp
    then have "throttled env t (creates a + Suc j)" using Suc.prems(2) by blast
    then show "throttled env t (creates a2 + j)" using f1 by (simp add: a2_def cooled_fields)
  qed
  from Suc.hyps(1) [OF m i2 th2] obtain a' where
    0: "retryLoop env t retries (Suc i) a2 = Some (Inl maxRetriesError, a')"
    and 1: "ready C (limiter a')" and 2: "creates a' = creates a2 + (retries - Suc i)"
    and 3: "count_list (trace a') (Delay 25000) = count_list (trace a2) (Delay 25000) + (retries - Suc i)"
    and 4: "Suc i < retries \<longrightarrow> last (trace a') = Delay 25000"
    and 5: "now (limiter a2) + 25000 * int (retries - Suc i) \<le> now (limiter a')"
    by blast
  have l: "last (trace a') = Delay 25000"
  proof (cases "Suc i < retries")
    case True
    then show ?thesis using 4 by simp
  next
    case False
    then have "retryLoop env t retries (Suc i) a2 = Some (Inl maxRetriesError, a2)"
      by (rule retryLoop_exhausted)
    then have "a' = a2" using 0 by simp
    then show ?thesis by (simp add: a2_def cooled_fields)
  qed
  have c: "count_list (trace a2) (Delay 25000) = count_list (trace a) (Delay 25000) + 1"
    using tr1 by (simp add: a2_def cooled_fields)
  have k: "now (limiter a) + 25000 \<le> now (limiter a2)"
    using f1 by (simp add: a2_def cooled_fields)
  have d: "int (retries - i) = int (retries - Suc i) + 1" using lt by simp
  have "now (limiter a) + 25000 * int (retries - i) \<le> now (limiter a')"
    unfolding d using 5 k by simp
  moreover have "creates a' = creates a + (retries - i)"
    using 2 f1 lt by (simp add: a2_def cooled_fields)
  moreover have "count_list (trace a') (Delay 25000) = count_list (trace a) (Delay 25000) + (retries - i)"
    using 3 c lt by simp
  ultimately show ?case using st 0 1 l by simp
qed

lemma retryLoop_settles:
  assumes "ready C (limiter a)" and "i + k < retries"
    and "\<forall>j<k. throttled env t (creates a + j)" and "\<not> throttled env t (creates a + k)"
  shows "\<exists>a'. retryLoop env t retries i a = Some (embeddings_create env (creates a + k) t, a') \<and>
      ready C (limiter a') \<and> creates a' = creates a + k + 1 \<and>
      count_list (trace a') (Delay 25000) = count_list (trace a) (Delay 25000) + k"
  using assms
proof (induction k arbitrary: i a)
  case 0
  have lt: "i < retries" using "0.prems"(2) by simp
  from embed_ready [OF "0.prems"(1), of env t] obtain a1 where
    em: "embed env t a = Some (embeddings_create env (creates a) t, a1)"
    and i1: "ready C (limiter a1)"
    and tr1: "trace a1 = trace a @ [Token (calls (limiter a)), Create t]"
    and f1: "creates a1 = Suc (creates a)"
    by blast
  show ?case
  proof (cases "embeddings_create env (creates a) t")
    case (Inr v)
    have "retryLoop env t retries i a = Some (Inr v, a1)"
      using lt em Inr by (intro retryLoop_success) simp_all
    then show ?thesis using i1 tr1 f1 Inr by simp
  next
    case (Inl e)
    then have ne: "status e \<noteq> Some 429" using "0.prems"(4) by (simp add: throttled_def)
    have "retryLoop env t retries i a =
        Some (Inl e, emit (ConsoleError ''Embedding error:'' [] e) a1)"
      using lt em Inl ne by (intro retryLoop_other) simp_all
    then show ?thesis using i1 tr1 f1 Inl by (simp add: emit_def)
  qed
next
  case (Suc k)
  have lt: "i < retries" using Suc.prems(2) by simp
  from Suc.prems(3) have "throttled env t (creates a)" by (metis add.right_neutral zero_less_Suc)
  then obtain e where e: "embeddings_create env (creates a) t = Inl e" "status e = Some 429"
    unfolding throttled_iff by blast
  from embed_ready [OF Suc.prems(1), of env t] obtain a1 where
    em: "embed env t a = Some (embeddings_create env (creates a) t, a1)"
    and i1: "ready C (limiter a1)"
    and tr1: "trace a1 = trace a @ [Token (calls (limiter a)), Create t]"
    and f1: "creates a1 = Suc (creates a)"
    by blast
  define a2 where "a2 = cooled e i retries a1"
  have st: "retryLoop env t retries i a = retryLoop env t retries (Suc i) a2"
    unfolding a2_def using lt em e by (intro retryLoop_throttled) simp_all
  have i2: "ready C (limiter a2)"
    using ready_advance [OF i1, of 25000] by (simp add: a2_def cooled_fields)
  have c2: "creates a2 = Suc (creates a)" using f1 by (simp add: a2_def cooled_fields)
  have th2: "\<forall>j<k. throttled env t (creates a2 + j)"
  proof (intro allI impI)
    fix j assume "j < k"
    then have "Suc j < Suc k" by simp
    then have "throttled env t (creates a + Suc j)" using Suc.prems(3) by blast
    then show "throttled env t (creates a2 + j)" using c2 by simp
  qed
  have nt: "\<not> throttled env t (creates a2 + k)" using Suc.prems(4) c2 by simp
  have b: "Suc i + k < retries" using Suc.prems(2) by simp
  from Suc.IH [OF i2 b th2 nt] obtain a' where
    0: "retryLoop env t retries (Suc i) a2 = Some (embeddings_create env (creates a2 + k) t, a')"
    and 1: "ready C (limiter a')" and 2: "creates a' = creates a2 + k + 1"
    and 3: "count_list (trace a') (Delay 25000) = count_list (trace a2) (Delay 25000) + k"
    by blast
  have c: "count_list (trace a2) (Delay 25000) = count_list (trace a) (Delay 25000) + 1"
    using tr1 by (simp add: a2_def cooled_fields)
  show ?case using st 0 1 2 3 c c2 by simp
qed

subsection \<open>The trace and the limiter, attempt by attempt\<close>

lemma throttledAttempts_0 [simp]: "throttledAttempts env t retries i r c 0 = []"
  by (simp add: throttledAttempts_def)

lemma throttledAttempts_Suc:
  "throttledAttempts env t retries i r c (Suc k) =
     [Token r, Create t, ConsoleError ''Embedding error:'' [] (projl (embeddings_create env c t)),
      ConsoleLog ''Rate limited, waiting 25 seconds before retry'' [i + 1, retries],
      Delay 25000] @ throttledAttempts env t retries (Suc i) (Suc r) (Suc c) k"
  unfolding throttledAttempts_def map_upt_Suc by simp

lemma count_throttledAttempts:
  "count_list (throttledAttempts env t retries i r c k) (Delay 25000) = k"
proof (induction k arbitrary: i r c)
  case 0
  show ?case by simp
next
  case (Suc k)
  show ?case unfolding throttledAttempts_Suc using Suc by simp
qed

lemma retryLoop_settles_exact:
  assumes "ready C (limiter a)" and "i + k < retries"
    and "\<forall>j<k. throttled env t (creates a + j)" and "\<not> throttled env t (creates a + k)"
  shows "\<exists>a' ls. retryLoop env t retries i a = Some (embeddings_create env (creates a + k) t, a') \<and>
      ready C (limiter a') \<and> creates a' = creates a + k + 1 \<and>
      trace a' = trace a @ throttledAttempts env t retries i (calls (limiter a)) (creates a) k @
                 [Token (calls (limiter a) + k), Create t] @
                 (case embeddings_create env (creates a + k) t of
                    Inl e \<Rightarrow> [ConsoleError ''Embedding error:'' [] e]
                  | Inr v \<Rightarrow> []) \<and>
      length ls = Suc k \<and> acquisitions (limiter a) ls \<and> limiter a' = last ls \<and>
      now (limiter a) + 25000 * int k \<le> now (limiter a')"
  using assms
proof (induction k arbitrary: i a)
  case 0
  have lt: "i < retries" using "0.prems"(2) by simp
  from embed_ready [OF "0.prems"(1), of env t] obtain a1 where
    em: "embed env t a = Some (embeddings_create env (creates a) t, a1)"
    and i1: "ready C (limiter a1)"
    and tr1: "trace a1 = trace a @ [Token (calls (limiter a)), Create t]"
    and f1: "creates a1 = Suc (creates a)" "now (limiter a) \<le> now (limiter a1)"
    and tk: "took (limiter a) (limiter a1)"
    by blast
  show ?case
  proof (cases "embeddings_create env (creates a) t")
    case (Inr v)
    have "retryLoop env t retries i a = Some (Inr v, a1)"
      using lt em Inr by (intro retryLoop_success) simp_all
    then show ?thesis using i1 tr1 f1 tk Inr
      by (intro exI [of _ a1] exI [of _ "[limiter a1]"]) simp
  next
    case (Inl e)
    then have ne: "status e \<noteq> Some 429" using "0.prems"(4) by (simp add: throttled_def)
    have "retryLoop env t retries i a =
        Some (Inl e, emit (ConsoleError ''Embedding error:'' [] e) a1)"
      using lt em Inl ne by (intro retryLoop_other) simp_all
    then show ?thesis using i1 tr1 f1 tk Inl
      by (intro exI [of _ "emit (ConsoleError ''Embedding error:'' [] e) a1"]
            exI [of _ "[limiter a1]"]) (simp add: emit_def)
  qed
next
  case (Suc k)
  have lt: "i < retries" using Suc.prems(2) by simp
  from Suc.prems(3) have "throttled env t (creates a)" by (metis add.right_neutral zero_less_Suc)
  then obtain e where e: "embeddings_create env (creates a) t = Inl e" "status e = Some 429"
    unfolding throttled_iff by blast
  from embed_ready [OF Suc.prems(1), of env t] obtain a1 where
    em: "embed env t a = Some (embeddings_create env (creates a) t, a1)"
    and i1: "ready C (limiter a1)"
    and tr1: "trace a1 = trace a @ [Token (calls (limiter a)), Create t]"
    and f1: "creates a1 = Suc (creates a)" "now (limiter a) \<le> now (limiter a1)"
      "calls (limiter a1) = Suc (calls (limiter a))"
    and tk: "took (limiter a) (limiter a1)"
    by blast
  define a2 where "a2 = cooled e i retries a1"
  have st: "retryLoop env t retries i a = retryLoop env t retries (Suc i) a2"
    unfolding a2_def using lt em e by (intro retryLoop_throttled) simp_all
  have i2: "ready C (limiter a2)"
    using ready_advance [OF i1, of 25000] by (simp add: a2_def cooled_fields)
  have c2: "creates a2 = Suc (creates a)" using f1 by (simp add: a2_def cooled_fields)
  have r2: "calls (limiter a2) = Suc (calls (limiter a))" using f1 by (simp add: a2_def cooled_fields)
  have l2: "limiter a2 = advance 25000 (limiter a1)" by (simp add: a2_def cooled_fields)
  have t2: "trace a2 = trace a @ [Token (calls (limiter a)), Create t,
              ConsoleError ''Embedding error:'' [] e,
              ConsoleLog ''Rate limited, waiting 25 seconds before retry'' [i + 1, retries],
              Delay 25000]"
    using tr1 by (simp add: a2_def cooled_fields)
  have th2: "\<forall>j<k. throttled env t (creates a2 + j)"
  proof (intro allI impI)
    fix j assume "j < k"
    then have "Suc j < Suc k" by simp
    then have "throttled env t (creates a + Suc j)" using Suc.prems(3) by blast
    then show "throttled env t (creates a2 + j)" using c2 by simp
  qed
  have nt: "\<not> throttled env t (creates a2 + k)" using Suc.prems(4) c2 by simp
  have b: "Suc i + k < retries" using Suc.prems(2) by simp
  from Suc.IH [OF i2 b th2 nt] obtain a' ls where
    0: "retryLoop env t retries (Suc i) a2 = Some (embeddings_create env (creates a2 + k) t, a')"
    and 1: "ready C (limiter a')" and 2: "creates a' = creates a2 + k + 1"
    and 3: "trace a' = trace a2 @ throttledAttempts env t retries (Suc i) (calls (limiter a2)) (creates a2) k @
                 [Token (calls (limiter a2) + k), Create t] @
                 (case embeddings_create env (creates a2 + k) t of
                    Inl e \<Rightarrow> [ConsoleError ''Embedding error:'' [] e]
                  | Inr v \<Rightarrow> [])"
    and 4: "length ls = Suc k" "acquisitions (limiter a2) ls" "limiter a' = last ls"
    and 5: "now (limiter a2) + 25000 * int k \<le> now (limiter a')"
    by blast
  have ne: "ls \<noteq> []" using 4(1) by auto
  have A: "retryLoop env t retries i a = Some (embeddings_create env (creates a + Suc k) t, a')"
    using st 0 c2 by simp
  have B: "creates a' = creates a + Suc k + 1" using 2 c2 by simp
  have D: "trace a' = trace a @ throttledAttempts env t retries i (calls (limiter a)) (creates a) (Suc k) @
                 [Token (calls (limiter a) + Suc k), Create t] @
                 (case embeddings_create env (creates a + Suc k) t of
                    Inl e \<Rightarrow> [ConsoleError ''Embedding error:'' [] e]
                  | Inr v \<Rightarrow> [])"
    unfolding throttledAttempts_Suc using 3 t2 c2 r2 e(1) by simp
  have E: "length (limiter a1 # ls) = Suc (Suc k)" using 4(1) by simp
  have F: "acquisitions (limiter a) (limiter a1 # ls)" using tk 4(2) l2 by simp
  have G: "limiter a' = last (limiter a1 # ls)" using 4(3) ne by simp
  have H: "now (limiter a) + 25000 * int (Suc k) \<le> now (limiter a')"
    using 5 f1(2) l2 by simp
  show ?case using A 1 B D E F G H by blast
qed

lemma retryLoop_throttled_exact:
  assumes "ready C (limiter a)" and "\<forall>j<retries - i. throttled env t (creates a + j)"
  shows "\<exists>a' ls. retryLoop env t retries i a = Some (Inl maxRetriesError, a') \<and>
      ready C (limiter a') \<and> creates a' = creates a + (retries - i) \<and>
      trace a' = trace a @ throttledAttempts env t retries i (calls (limiter a)) (creates a) (retries - i) \<and>
      length ls = retries - i \<and> acquisitions (limiter a) ls \<and>
      limiter a' = (if ls = [] then limiter a else advance 25000 (last ls)) \<and>
      now (limiter a) + 25000 * int (retries - i) \<le> now (limiter a')"
  using assms
proof (induction "retries - i" arbitrary: i a)
  case 0
  then have "retryLoop env t retries i a = Some (Inl maxRetriesError, a)"
    by (intro retryLoop_exhausted) simp
  then show ?case using "0.prems" "0.hyps" by (intro exI [of _ a] exI [of _ "[]"]) simp
next
  case (Suc m)
  have lt: "i < retries" using Suc.hyps(2) by simp
  have m: "m = retries - Suc i" using Suc.hyps(2) by simp
  have d: "retries - i = Suc (retries - Suc i)" using lt by simp
  from Suc.prems(2) lt have "throttled env t (creates a)" by (metis add.right_neutral zero_less_diff)
  then obtain e where e: "embeddings_create env (creates a) t = Inl e" "status e = Some 429"
    unfolding throttled_iff by blast
  from embed_ready [OF Suc.prems(1), of env t] obtain a1 where
    em: "embed env t a = Some (embeddings_create env (creates a) t, a1)"
    and i1: "ready C (limiter a1)"
    and tr1: "trace a1 = trace a @ [Token (calls (limiter a)), Create t]"
    and f1: "creates a1 = Suc (creates a)" "now (limiter a) \<le> now (limiter a1)"
      "calls (limiter a1) = Suc (calls (limiter a))"
    and tk: "took (limiter a) (limiter a1)"
    by blast
  define a2 where "a2 = cooled e i retries a1"
  have st: "retryLoop env t retries i a = retryLoop env t retries (Suc i) a2"
    unfolding a2_def using lt em e by (intro retryLoop_throttled) simp_all
  have i2: "ready C (limiter a2)"
    using ready_advance [OF i1, of 25000] by (simp add: a2_def cooled_fields)
  have c2: "creates a2 = Suc (creates a)" using f1 by (simp add: a2_def cooled_fields)
  have r2: "calls (limiter a2) = Suc (calls (limiter a))" using f1 by (simp add: a2_def cooled_fields)
  have l2: "limiter a2 = advance 25000 (limiter a1)" by (simp add: a2_def cooled_fields)
  have t2: "trace a2 = trace a @ [Token (calls (limiter a)), Create t,
              ConsoleError ''Embedding error:'' [] e,
              ConsoleLog ''Rate limited, waiting 25 seconds before retry'' [i + 1, retries],
              Delay 25000]"
    using tr1 by (simp add: a2_def cooled_fields)
  have th2: "\<forall>j<retries - Suc i. throttled env t (creates a2 + j)"
  proof (intro allI impI)
    fix j assume "j < retries - Suc i"
    then have "Suc j < retries - i" by simp
    then have "throttled env t (creates a + Suc j)" using Suc.prems(2) by blast
    then show "throttled env t (creates a2 + j)" using c2 by simp
  qed
  from Suc.hyps(1) [OF m i2 th2] obtain a' ls where
    0: "retryLoop env t retries (Suc i) a2 = Some (Inl maxRetriesError, a')"
    and 1: "ready C (limiter a')" and 2: "creates a' = creates a2 + (retries - Suc i)"
    and 3: "trace a' = trace a2 @ throttledAttempts env t retries (Suc i) (calls (limiter a2)) (creates a2) (retries - Suc i)"
    and 4: "length ls = retries - Suc i" "acquisitions (limiter a2) ls"
      "limiter a' = (if ls = [] then limiter a2 else advance 25000 (last ls))"
    and 5: "now (limiter a2) + 25000 * int (retries - Suc i) \<le> now (limiter a')"
    by blast
  have A: "retryLoop env t retries i a = Some (Inl maxRetriesError, a')" using st 0 by simp
  have B: "creates a' = creates a + (retries - i)" using 2 c2 lt by simp
  have D: "trace a' = trace a @ throttledAttempts env t retries i (calls (limiter a)) (creates a) (retries - i)"
    unfolding d throttledAttempts_Suc using 3 t2 c2 r2 e(1) by simp
  have E: "length (limiter a1 # ls) = retries - i" using 4(1) lt by simp
  have F: "acquisitions (limiter a) (limiter a1 # ls)" using tk 4(2) l2 by simp
  have G: "limiter a' = (if limiter a1 # ls = [] then limiter a else advance 25000 (last (limiter a1 # ls)))"
    using 4(3) l2 by simp
  have H: "now (limiter a) + 25000 * int (retries - i) \<le> now (limiter a')"
    unfolding d using 5 f1(2) l2 by simp
  show ?case using A 1 B D E F G H by blast
qed

lemma retryLoop_attempts:
  assumes "ready C (limiter a)"
  shows "\<exists>res a' n ls. retryLoop env t retries 0 a = Some (res, a') \<and> n \<le> retries \<and>
      creates a' = creates a + n \<and> length ls = n \<and> acquisitions (limiter a) ls \<and>
      limiter a' = (if n = 0 then limiter a
                    else if throttled env t (creates a + n - 1) then advance 25000 (last ls)
                    else last ls)"
proof (cases "\<exists>k<retries. \<not> throttled env t (creates a + k)")
  case True
  define k where "k = (LEAST k. k < retries \<and> \<not> throttled env t (creates a + k))"
  from True obtain k0 where "k0 < retries \<and> \<not> throttled env t (creates a + k0)" by blast
  then have k: "k < retries \<and> \<not> throttled env t (creates a + k)"
    unfolding k_def by (rule LeastI)
  have th: "\<forall>j<k. throttled env t (creates a + j)"
  proof (intro allI impI)
    fix j assume j: "j < k"
    then have "\<not> (j < retries \<and> \<not> throttled env t (creates a + j))"
      unfolding k_def by (rule not_less_Least)
    moreover have "j < retries" using j k by simp
    ultimately show "throttled env t (creates a + j)" by blast
  qed
  have b: "0 + k < retries" using k by simp
  have nt: "\<not> throttled env t (creates a + k)" using k by simp
  from retryLoop_settles_exact [OF assms b th nt] obtain a' ls where
    0: "retryLoop env t retries 0 a = Some (embeddings_create env (creates a + k) t, a')"
    and 1: "creates a' = creates a + k + 1" "length ls = Suc k" "acquisitions (limiter a) ls"
      "limiter a' = last ls"
    by blast
  have "limiter a' = (if Suc k = 0 then limiter a
                    else if throttled env t (creates a + Suc k - 1) then advance 25000 (last ls)
                    else last ls)"
    using 1(4) k by simp
  moreover have "Suc k \<le> retries" using k by simp
  moreover have "creates a' = creates a + Suc k" using 1(1) by simp
  ultimately show ?thesis using 0 1(2,3)
    by (intro exI [of _ "embeddings_create env (creates a + k) t"] exI [of _ a'] exI [of _ "Suc k"]
          exI [of _ ls]) simp
next
  case False
  then have th: "\<forall>j<retries - 0. throttled env t (creates a + j)" by simp
  from retryLoop_throttled_exact [OF assms th] obtain a' ls where
    0: "retryLoop env t retries 0 a = Some (Inl maxRetriesError, a')"
    and 1: "creates a' = creates a + (retries - 0)" "length ls = retries - 0"
      "acquisitions (limiter a) ls"
      "limiter a' = (if ls = [] then limiter a else advance 25000 (last ls))"
    by blast
  have "limiter a' = (if retries = 0 then limiter a
                    else if throttled env t (creates a + retries - 1) then advance 25000 (last ls)
                    else last ls)"
  proof (cases "retries = 0")
    case True
    then show ?thesis using 1(2,4) by simp
  next
    case r: False
    then have "ls \<noteq> []" using 1(2) by auto
    moreover have "retries - 1 < retries - 0" using r by simp
    with th have "throttled env t (creates a + (retries - 1))" by blast
    then have "throttled env t (creates a + retries - 1)" using r by simp
    ultimately show ?thesis using 1(4) r by simp
  qed
  then show ?thesis using 0 1(1,2,3) by (intro exI [of _ "Inl maxRetriesError"] exI [of _ a'] exI [of _ retries] exI [of _ ls]) simp
qed

subsection \<open>The two programs at their start\<close>

lemma idle_RateLimiter: "0 < C \<Longrightarrow> idle C (RateLimiter C t0)"
  by (simp add: idle_def RateLimiter_def bounded_def fifo_def truthful_def)

lemma directIdle_DirectLimiter: "0 < C \<Longrightarrow> directIdle C (DirectLimiter C t0)"
  by (simp add: directIdle_def DirectLimiter_bounded DirectLimiter_props)
     (simp add: DirectLimiter_def)

lemma ready_newApp: "0 < C \<Longrightarrow> ready C (limiter (newApp C t0))"
  by (simp add: newApp_def idle_RateLimiter)

lemma ready_newIndexApp: "0 < C \<Longrightarrow> ready C (limiter (newIndexApp C t0))"
  by (simp add: newIndexApp_def directIdle_DirectLimiter)

lemma createEmbeddingWithRetry_get:
  "createEmbeddingWithRetry env t retries a =
     (case getEmbeddingWithRetry env t retries a of
        None \<Rightarrow> None
      | Some (Inl e, a1) \<Rightarrow> Some (Inl e, a1)
      | Some (Inr v, a1) \<Rightarrow> Some (Inr (t, v), a1))"
  by (simp add: createEmbeddingWithRetry_def getEmbeddingWithRetry_def)

section \<open>The claims about the retrying invoker\<close>

text \<open>
  In this section and the next ones the caller is alone with its limiter, which is either
  of the two and has a positive capacity (\<open>ready\<close>): the limiter of index.js for
  \<^verbatim>\<open>getEmbeddingWithRetry\<close>, \<^verbatim>\<open>storeEmbeddings\<close> and \<^verbatim>\<open>generateChatResponse\<close> of that file,
  the limiter of rateLimiter.js for the functions that import it.
\<close>

subsection \<open>Retry on status 429 only, and no more than \<open>retries\<close> attempts\<close>

text \<open>
  Claim C3. If the provider answers the first \<open>k\<close> outbound calls of an invocation with
  status 429 and the next one with anything else (a payload, or an error of another
  status), and \<open>k\<close> is below \<open>retries\<close>, then \<^verbatim>\<open>getEmbeddingWithRetry\<close> returns that payload
  or throws that very error after \<open>k + 1\<close> outbound calls: an error other than 429 on the
  first call is thrown at once, and each 429 costs one attempt. The trace is, for each of
  the \<open>k\<close> throttled attempts, the token, the call, the two lines on the console and the
  cooldown of 25000 ms, in this order, and then the token and the call of the last
  attempt. The limiter goes through \<open>k + 1\<close> acquisitions with the clock advanced by
  25000 ms between the end of one attempt and the acquisition of the next, so that the
  invocation takes at least \<open>25000 * k\<close> ms. If the provider answers 429 to \<open>retries\<close> calls in
  a row, the function throws the error \<^verbatim>\<open>Max retries reached for embedding generation\<close>,
  which has no status, after exactly \<open>retries\<close> outbound calls, each followed by its
  cooldown. \<^verbatim>\<open>createEmbeddingWithRetry\<close> is the same loop and differs only in the shape of the
  value it returns.
\<close>

theorem retry_on_rate_limit_only:
  assumes "ready C (limiter a)"
  shows "(\<forall>k<retries. (\<forall>j<k. throttled env t (creates a + j)) \<longrightarrow>
            \<not> throttled env t (creates a + k) \<longrightarrow>
            (\<exists>a' ls. getEmbeddingWithRetry env t retries a =
                    Some (embeddings_create env (creates a + k) t, a') \<and>
                  creates a' = creates a + k + 1 \<and>
                  count_list (trace a') (Delay 25000) = count_list (trace a) (Delay 25000) + k \<and>
                  trace a' =
                    trace a @
                    throttledAttempts env t retries 0 (calls (limiter a)) (creates a) k @
                    [Token (calls (limiter a) + k), Create t] @
                    (case embeddings_create env (creates a + k) t of
                       Inl e \<Rightarrow> [ConsoleError ''Embedding error:'' [] e]
                     | Inr v \<Rightarrow> []) \<and>
                  length ls = k + 1 \<and> acquisitions (limiter a) ls \<and> limiter a' = last ls \<and>
                  now (limiter a) + 25000 * int k \<le> now (limiter a'))) \<and>
         ((\<forall>j<retries. throttled env t (creates a + j)) \<longrightarrow>
            (\<exists>a' ls. getEmbeddingWithRetry env t retries a = Some (Inl maxRetriesError, a') \<and>
                  creates a' = creates a + retries \<and> status maxRetriesError = None \<and>
                  trace a' =
                    trace a @
                    throttledAttempts env t retries 0 (calls (limiter a)) (creates a) retries \<and>
                  length ls = retries \<and> acquisitions (limiter a) ls \<and>
                  limiter a' = (if ls = [] then limiter a else advance 25000 (last ls)) \<and>
                  now (limiter a) + 25000 * int retries \<le> now (limiter a'))) \<and>
         createEmbeddingWithRetry env t retries a =
           (case getEmbeddingWithRetry env t retries a of
              None \<Rightarrow> None
            | Some (Inl e, a1) \<Rightarrow> Some (Inl e, a1)
            | Some (Inr v, a1) \<Rightarrow> Some (Inr (t, v), a1))"
proof (intro conjI allI impI)
  fix k
  assume k: "k < retries" and th: "\<forall>j<k. throttled env t (creates a + j)"
    and nt: "\<not> throttled env t (creates a + k)"
  have b: "0 + k < retries" using k by simp
  from retryLoop_settles_exact [OF assms b th nt] obtain a' ls where
    0: "retryLoop env t retries 0 a = Some (embeddings_create env (creates a + k) t, a')"
    and 1: "creates a' = creates a + k + 1"
    and 2: "trace a' = trace a @ throttledAttempts env t retries 0 (calls (limiter a)) (creates a) k @
                 [Token (calls (limiter a) + k), Create t] @
                 (case embeddings_create env (creates a + k) t of
                    Inl e \<Rightarrow> [ConsoleError ''Embedding error:'' [] e]
                  | Inr v \<Rightarrow> [])"
    and 3: "length ls = Suc k" "acquisitions (limiter a) ls" "limiter a' = last ls"
      "now (limiter a) + 25000 * int k \<le> now (limiter a')"
    by blast
  have 4: "count_list (trace a') (Delay 25000) = count_list (trace a) (Delay 25000) + k"
    unfolding 2 by (cases "embeddings_create env (creates a + k) t")
      (simp_all add: count_throttledAttempts)
  have 5: "getEmbeddingWithRetry env t retries a =
             Some (embeddings_create env (creates a + k) t, a')"
    using 0 by (simp add: getEmbeddingWithRetry_def)
  have 6: "length ls = k + 1" using 3(1) by simp
  show "\<exists>a' ls. getEmbeddingWithRetry env t retries a =
                    Some (embeddings_create env (creates a + k) t, a') \<and>
                  creates a' = creates a + k + 1 \<and>
                  count_list (trace a') (Delay 25000) = count_list (trace a) (Delay 25000) + k \<and>
                  trace a' =
                    trace a @
                    throttledAttempts env t retries 0 (calls (limiter a)) (creates a) k @
                    [Token (calls (limiter a) + k), Create t] @
                    (case embeddings_create env (creates a + k) t of
                       Inl e \<Rightarrow> [ConsoleError ''Embedding error:'' [] e]
                     | Inr v \<Rightarrow> []) \<and>
                  length ls = k + 1 \<and> acquisitions (limiter a) ls \<and> limiter a' = last ls \<and>
                  now (limiter a) + 25000 * int k \<le> now (limiter a')"
    using 5 1 4 2 6 3(2,3,4) by blast
next
  assume "\<forall>j<retries. throttled env t (creates a + j)"
  then have th: "\<forall>j<retries - 0. throttled env t (creates a + j)" by simp
  from retryLoop_throttled_exact [OF assms th] obtain a' ls where
    0: "retryLoop env t retries 0 a = Some (Inl maxRetriesError, a')"
    and 1: "creates a' = creates a + (retries - 0)"
    and 2: "trace a' = trace a @
              throttledAttempts env t retries 0 (calls (limiter a)) (creates a) (retries - 0)"
    and 3: "length ls = retries - 0" "acquisitions (limiter a) ls"
      "limiter a' = (if ls = [] then limiter a else advance 25000 (last ls))"
      "now (limiter a) + 25000 * int (retries - 0) \<le> now (limiter a')"
    by blast
  have 5: "getEmbeddingWithRetry env t retries a = Some (Inl maxRetriesError, a')"
    using 0 by (simp add: getEmbeddingWithRetry_def)
  have 6: "status maxRetriesError = None" by (simp add: maxRetriesError_def)
  show "\<exists>a' ls. getEmbeddingWithRetry env t retries a = Some (Inl maxRetriesError, a') \<and>
                  creates a' = creates a + retries \<and> status maxRetriesError = None \<and>
                  trace a' =
                    trace a @
                    throttledAttempts env t retries 0 (calls (limiter a)) (creates a) retries \<and>
                  length ls = retries \<and> acquisitions (limiter a) ls \<and>
                  limiter a' = (if ls = [] then limiter a else advance 25000 (last ls)) \<and>
                  now (limiter a) + 25000 * int retries \<le> now (limiter a')"
    using 5 6 1 2 3 by (intro exI [of _ a'] exI [of _ ls]) simp
next
  show "createEmbeddingWithRetry env t retries a =
           (case getEmbeddingWithRetry env t retries a of
              None \<Rightarrow> None
            | Some (Inl e, a1) \<Rightarrow> Some (Inl e, a1)
            | Some (Inr v, a1) \<Rightarrow> Some (Inr (t, v), a1))"
    by (rule createEmbeddingWithRetry_get)
qed

theorem retry_on_rate_limit_only_witness:
  "\<exists>a'. getEmbeddingWithRetry throttledTwice [104, 105] 3 (newIndexApp 3 0) = Some (Inr [2], a') \<and>
        creates a' = 3 \<and>
        trace a' =
          [Token 0, Create [104, 105], ConsoleError ''Embedding error:'' [] tooManyRequests,
           ConsoleLog ''Rate limited, waiting 25 seconds before retry'' [1, 3], Delay 25000,
           Token 1, Create [104, 105], ConsoleError ''Embedding error:'' [] tooManyRequests,
           ConsoleLog ''Rate limited, waiting 25 seconds before retry'' [2, 3], Delay 25000,
           Token 2, Create [104, 105]] \<and>
        grantedAt (limiter a') = [(0, 0), (1, 25000), (2, 50000)] \<and>
        50000 \<le> now (limiter a')"
proof -
  let ?run = "getEmbeddingWithRetry throttledTwice [104, 105] 3 (newIndexApp 3 0)"
  have i: "ready 3 (limiter (newIndexApp 3 0))" by (rule ready_newIndexApp) simp
  have c: "creates (newIndexApp 3 0) = 0" "trace (newIndexApp 3 0) = []"
    "calls (limiter (newIndexApp 3 0)) = 0" "now (limiter (newIndexApp 3 0)) = 0"
    by (simp_all add: newIndexApp_def DirectLimiter_def)
  have t: "\<forall>j<2. throttled throttledTwice [104, 105] (creates (newIndexApp 3 0) + j)"
    by (simp add: c throttled_def throttledTwice_def tooManyRequests_def)
  have n: "\<not> throttled throttledTwice [104, 105] (creates (newIndexApp 3 0) + 2)"
    by (simp add: c throttled_def throttledTwice_def)
  have v: "embeddings_create throttledTwice (creates (newIndexApp 3 0) + 2) [104, 105] = Inr [2]"
    by (simp add: c throttledTwice_def)
  have "(2::nat) < 3" by simp
  with retry_on_rate_limit_only [OF i, of 3 throttledTwice "[104, 105]"] t n
  obtain a' where
    0: "?run = Some (embeddings_create throttledTwice (creates (newIndexApp 3 0) + 2) [104, 105], a')"
    and 1: "creates a' = creates (newIndexApp 3 0) + 2 + 1"
    and 2: "now (limiter (newIndexApp 3 0)) + 25000 * int 2 \<le> now (limiter a')"
    by blast
  have 3: "trace (snd (the ?run)) =
          [Token 0, Create [104, 105], ConsoleError ''Embedding error:'' [] tooManyRequests,
           ConsoleLog ''Rate limited, waiting 25 seconds before retry'' [1, 3], Delay 25000,
           Token 1, Create [104, 105], ConsoleError ''Embedding error:'' [] tooManyRequests,
           ConsoleLog ''Rate limited, waiting 25 seconds before retry'' [2, 3], Delay 25000,
           Token 2, Create [104, 105]]"
    by code_simp
  have 4: "grantedAt (limiter (snd (the ?run))) = [(0, 0), (1, 25000), (2, 50000)]"
    by code_simp
  show ?thesis using 0 1 2 3 4 unfolding v by (simp add: c)
qed

subsection \<open>Every attempt acquires a token of its own\<close>

text \<open>
  Claim C5. Whatever the provider answers, an invocation returns after \<open>n\<close> attempts, \<open>n\<close>
  not above \<open>retries\<close>. The acquisitions of a token and the outbound calls in its trace
  alternate: every \<^verbatim>\<open>embeddings.create\<close> comes right after an
  \<^verbatim>\<open>await rateLimiter.waitForToken()\<close> that returned, each for a new call of \<^verbatim>\<open>waitForToken\<close>,
  and the limiter has fulfilled the promises of exactly these calls. Each of the \<open>n\<close>
  acquisitions went through the bucket: it refilled it and took one token from it, at
  once if there was one and after waiting \<open>waitTime\<close> ms and refilling again if there was
  none; between two attempts only the cooldown passed. \<^verbatim>\<open>createEmbeddingWithRetry\<close> does the
  same and ends in the same state.
\<close>

theorem every_attempt_acquires_token:
  assumes "ready C (limiter a)"
  shows "\<exists>res a' n tr ls. getEmbeddingWithRetry env t retries a = Some (res, a') \<and>
           createEmbeddingWithRetry env t retries a = Some (map_sum id (Pair t) res, a') \<and>
           n \<le> retries \<and> trace a' = trace a @ tr \<and>
           filter tokenOrCreate tr =
             concat (map (\<lambda>j. [Token (calls (limiter a) + j), Create t]) [0..<n]) \<and>
           creates a' = creates a + n \<and>
           granted (limiter a') =
             granted (limiter a) @ [calls (limiter a)..<calls (limiter a) + n] \<and>
           length ls = n \<and> acquisitions (limiter a) ls \<and>
           limiter a' = (if n = 0 then limiter a
                         else if throttled env t (creates a + n - 1)
                           then advance 25000 (last ls)
                           else last ls)"
proof -
  from retryLoop_footprint [OF assms, of env t retries 0] obtain res a' n tr where
    0: "retryLoop env t retries 0 a = Some (res, a')"
    and 2: "n \<le> retries" and 3: "trace a' = trace a @ tr"
    and 5: "filter tokenOrCreate tr =
              concat (map (\<lambda>j. [Token (calls (limiter a) + j), Create t]) [0..<n])"
    and 6: "creates a' = creates a + n"
    and 7: "granted (limiter a') =
              granted (limiter a) @ [calls (limiter a)..<calls (limiter a) + n]"
    by auto
  from retryLoop_attempts [OF assms, of env t retries] obtain res2 a2 n2 ls where
    10: "retryLoop env t retries 0 a = Some (res2, a2)"
    and 11: "creates a2 = creates a + n2" "length ls = n2" "acquisitions (limiter a) ls"
      "limiter a2 = (if n2 = 0 then limiter a
                     else if throttled env t (creates a + n2 - 1) then advance 25000 (last ls)
                     else last ls)"
    by blast
  have e: "a2 = a'" "n2 = n" using 0 10 6 11(1) by simp_all
  have 8: "getEmbeddingWithRetry env t retries a = Some (res, a')"
    using 0 by (simp add: getEmbeddingWithRetry_def)
  have 9: "createEmbeddingWithRetry env t retries a = Some (map_sum id (Pair t) res, a')"
    using 8 by (cases res) (simp_all add: createEmbeddingWithRetry_get)
  show ?thesis using 8 9 2 3 5 6 7 11(2,3,4) unfolding e by blast
qed

theorem every_attempt_acquires_token_witness:
  "\<exists>res a'. getEmbeddingWithRetry throttledTwice [104, 105] 3 (newIndexApp 1 0) = Some (res, a') \<and>
     filter tokenOrCreate (trace a') =
       [Token 0, Create [104, 105], Token 1, Create [104, 105], Token 2, Create [104, 105]] \<and>
     granted (limiter a') = [0, 1, 2] \<and>
     grantedAt (limiter a') = [(0, 0), (1, 85000), (2, 170000)] \<and>
     bucketOf (limiter a') = \<lparr> tokens = 0, maxTokens = 1, lastRefill = 170000, clock = 170000 \<rparr>"
proof -
  let ?run = "getEmbeddingWithRetry throttledTwice [104, 105] 3 (newIndexApp 1 0)"
  have i: "ready 1 (limiter (newIndexApp 1 0))" by (rule ready_newIndexApp) simp
  from every_attempt_acquires_token [OF i, of throttledTwice "[104, 105]" 3]
  obtain res a' n tr where
    0: "?run = Some (res, a')"
    and 1: "trace a' = trace (newIndexApp 1 0) @ tr"
    and 2: "filter tokenOrCreate tr =
             concat (map (\<lambda>j. [Token (calls (limiter (newIndexApp 1 0)) + j), Create [104, 105]]) [0..<n])"
    and 3: "creates a' = creates (newIndexApp 1 0) + n"
    and 4: "granted (limiter a') =
             granted (limiter (newIndexApp 1 0)) @
             [calls (limiter (newIndexApp 1 0))..<calls (limiter (newIndexApp 1 0)) + n]"
    by blast
  have "creates (snd (the ?run)) = 3" by code_simp
  then have n: "n = 3" using 0 3 by (simp add: newIndexApp_def)
  have u: "[0..<3] = [0, 1, 2]" by (simp add: upt_rec)
  have 5: "grantedAt (limiter (snd (the ?run))) = [(0, 0), (1, 85000), (2, 170000)]"
    by code_simp
  have 6: "bucketOf (limiter (snd (the ?run))) =
             \<lparr> tokens = 0, maxTokens = 1, lastRefill = 170000, clock = 170000 \<rparr>"
    by code_simp
  show ?thesis using 0 1 2 4 5 6 unfolding n by (simp add: newIndexApp_def DirectLimiter_def u)
qed

subsection \<open>A cooldown after the last failed attempt as well\<close>

text \<open>
  Claim C10. If the provider answers 429 to \<open>retries\<close> calls in a row, the invocation throws
  the error \<^verbatim>\<open>Max retries reached for embedding generation\<close> after \<open>retries\<close> cooldowns of
  25000 ms: the last action before the \<^verbatim>\<open>throw\<close> is a cooldown, and the clock has advanced
  by at least \<open>25000 * retries\<close> ms. \<^verbatim>\<open>createEmbeddingWithRetry\<close> ends in the same way.
\<close>

theorem cooldown_after_every_throttled_attempt:
  assumes "ready C (limiter a)" and "\<forall>j<retries. throttled env t (creates a + j)"
  shows "\<exists>a'. getEmbeddingWithRetry env t retries a = Some (Inl maxRetriesError, a') \<and>
           createEmbeddingWithRetry env t retries a = Some (Inl maxRetriesError, a') \<and>
           count_list (trace a') (Delay 25000) = count_list (trace a) (Delay 25000) + retries \<and>
           (0 < retries \<longrightarrow> last (trace a') = Delay 25000) \<and>
           now (limiter a) + 25000 * int retries \<le> now (limiter a')"
  using retryLoop_all_throttled [OF assms(1), of retries 0 env t] assms(2)
  unfolding createEmbeddingWithRetry_get getEmbeddingWithRetry_def by auto

theorem cooldown_after_every_throttled_attempt_witness:
  "(\<exists>a'. getEmbeddingWithRetry alwaysThrottled [104, 105] 3 (newIndexApp 3 0) =
          Some (Inl maxRetriesError, a') \<and>
        count_list (trace a') (Delay 25000) = 3 \<and> last (trace a') = Delay 25000 \<and>
        75000 \<le> now (limiter a')) \<and>
   (\<exists>a'. createEmbeddingWithRetry alwaysThrottled [104, 105] 3 (newApp 3 0) =
          Some (Inl maxRetriesError, a') \<and>
        count_list (trace a') (Delay 25000) = 3 \<and> last (trace a') = Delay 25000 \<and>
        75000 \<le> now (limiter a'))"
proof
  have i: "ready 3 (limiter (newIndexApp 3 0))" by (rule ready_newIndexApp) simp
  have t: "\<forall>j<3. throttled alwaysThrottled [104, 105] (creates (newIndexApp 3 0) + j)"
    by (simp add: throttled_def alwaysThrottled_def tooManyRequests_def)
  show "\<exists>a'. getEmbeddingWithRetry alwaysThrottled [104, 105] 3 (newIndexApp 3 0) =
          Some (Inl maxRetriesError, a') \<and>
        count_list (trace a') (Delay 25000) = 3 \<and> last (trace a') = Delay 25000 \<and>
        75000 \<le> now (limiter a')"
    using cooldown_after_every_throttled_attempt [OF i t]
    by (auto simp: newIndexApp_def DirectLimiter_def)
next
  have i: "ready 3 (limiter (newApp 3 0))" by (rule ready_newApp) simp
  have t: "\<forall>j<3. throttled alwaysThrottled [104, 105] (creates (newApp 3 0) + j)"
    by (simp add: throttled_def alwaysThrottled_def tooManyRequests_def)
  show "\<exists>a'. createEmbeddingWithRetry alwaysThrottled [104, 105] 3 (newApp 3 0) =
          Some (Inl maxRetriesError, a') \<and>
        count_list (trace a') (Delay 25000) = 3 \<and> last (trace a') = Delay 25000 \<and>
        75000 \<le> now (limiter a')"
    using cooldown_after_every_throttled_attempt [OF i t]
    by (auto simp: newApp_def RateLimiter_def)
qed

section \<open>The drivers\<close>

lemma created_append [simp]: "created (xs @ ys) = created xs @ created ys"
  by (induction xs rule: created.induct) simp_all

lemma inserted_append [simp]: "inserted (xs @ ys) = inserted xs @ inserted ys"
  by (induction xs rule: inserted.induct) simp_all

lemma created_filter: "created (filter tokenOrCreate xs) = created xs"
  by (induction xs rule: created.induct) simp_all

lemma created_attempts:
  "created (concat (map (\<lambda>j. [Token (f j), Create t]) js)) = replicate (length js) t"
  by (induction js) simp_all

lemma fromInvoker_visible:
  "list_all (fromInvoker t) tr \<Longrightarrow>
   filter storeVisible tr = map Create (created tr) \<and>
   filter movieVisible tr = map Create (created tr)"
proof (induction tr)
  case Nil
  show ?case by simp
next
  case (Cons x tr)
  then show ?case by (cases x) simp_all
qed

text \<open>What an invocation with three tries returns and leaves behind, as the drivers need it.\<close>

lemma invoker_result:
  assumes "ready C (limiter a)"
  shows "\<exists>a1. getEmbeddingWithRetry env t 3 a = Some (outcome env t (creates a), a1) \<and>
           creates a1 = creates a + attempts env t (creates a)"
proof -
  let ?c = "creates a"
  consider (one) "\<not> throttled env t ?c"
    | (two) "throttled env t ?c" "\<not> throttled env t (?c + 1)"
    | (three) "throttled env t ?c" "throttled env t (?c + 1)" "\<not> throttled env t (?c + 2)"
    | (none) "throttled env t ?c" "throttled env t (?c + 1)" "throttled env t (?c + 2)"
    by blast
  then show ?thesis
  proof cases
    case one
    have "\<forall>j<0. throttled env t (?c + j)" by simp
    from retryLoop_settles [OF assms _ this, of 0 3] one obtain a1 where
      "retryLoop env t 3 0 a = Some (embeddings_create env (?c + 0) t, a1)"
      "creates a1 = ?c + 0 + 1"
      by auto
    then show ?thesis using one
      by (intro exI [of _ a1]) (simp add: getEmbeddingWithRetry_def outcome_def attempts_def)
  next
    case two
    have th: "\<forall>j<1. throttled env t (?c + j)" using two(1) by simp
    from retryLoop_settles [OF assms _ th two(2), of 0 3] obtain a1 where
      "retryLoop env t 3 0 a = Some (embeddings_create env (?c + 1) t, a1)"
      "creates a1 = ?c + 1 + 1"
      by auto
    then show ?thesis using two
      by (intro exI [of _ a1]) (simp add: getEmbeddingWithRetry_def outcome_def attempts_def)
  next
    case three
    have th: "\<forall>j<2. throttled env t (?c + j)" using three(1,2) by (simp add: less_Suc_eq numeral_2_eq_2)
    from retryLoop_settles [OF assms _ th three(3), of 0 3] obtain a1 where
      "retryLoop env t 3 0 a = Some (embeddings_create env (?c + 2) t, a1)"
      "creates a1 = ?c + 2 + 1"
      by auto
    then show ?thesis using three
      by (intro exI [of _ a1]) (simp add: getEmbeddingWithRetry_def outcome_def attempts_def)
  next
    case none
    have th: "\<forall>j<3 - 0. throttled env t (?c + j)"
      using none by (simp add: less_Suc_eq numeral_3_eq_3)
    from retryLoop_all_throttled [OF assms th] obtain a1 where
      "retryLoop env t 3 0 a = Some (Inl maxRetriesError, a1)" "creates a1 = ?c + (3 - 0)"
      by auto
    then show ?thesis using none
      by (intro exI [of _ a1]) (simp add: getEmbeddingWithRetry_def outcome_def attempts_def)
  qed
qed

lemma invoker_outcome:
  assumes "ready C (limiter a)"
  shows "\<exists>a1 tr. getEmbeddingWithRetry env t 3 a = Some (outcome env t (creates a), a1) \<and>
           ready C (limiter a1) \<and> trace a1 = trace a @ tr \<and>
           filter storeVisible tr = replicate (attempts env t (creates a)) (Create t) \<and>
           filter movieVisible tr = replicate (attempts env t (creates a)) (Create t) \<and>
           creates a1 = creates a + attempts env t (creates a) \<and> inserts a1 = inserts a"
proof -
  from retryLoop_footprint [OF assms, of env t 3 0] obtain res a1 n tr where
    0: "retryLoop env t 3 0 a = Some (res, a1)" and 1: "ready C (limiter a1)"
    and 3: "trace a1 = trace a @ tr"
    and 4: "list_all (fromInvoker t) tr"
    and 5: "filter tokenOrCreate tr =
              concat (map (\<lambda>j. [Token (calls (limiter a) + j), Create t]) [0..<n])"
    and 6: "inserts a1 = inserts a" "creates a1 = creates a + n"
    by auto
  from invoker_result [OF assms, of env t] obtain a2 where
    7: "getEmbeddingWithRetry env t 3 a = Some (outcome env t (creates a), a2)"
    and 8: "creates a2 = creates a + attempts env t (creates a)"
    by blast
  have e: "a2 = a1" "res = outcome env t (creates a)"
    using 0 7 by (simp_all add: getEmbeddingWithRetry_def)
  have n: "n = attempts env t (creates a)" using 6(2) 8 e by simp
  have "created tr = created (filter tokenOrCreate tr)" by (simp add: created_filter)
  also have "\<dots> = replicate n t" unfolding 5 created_attempts by simp
  finally have 9: "created tr = replicate n t" .
  have 10: "filter storeVisible tr = replicate n (Create t)"
    "filter movieVisible tr = replicate n (Create t)"
    using fromInvoker_visible [OF 4] 9 by simp_all
  show ?thesis using 7 1 3 10 6 unfolding e n by blast
qed

lemma storeDocument_plan:
  assumes "ready C (limiter a)"
  shows "\<exists>a' tr. storeDocument env n i t a = Some a' \<and> ready C (limiter a') \<and>
           trace a' = trace a @ tr \<and>
           creates a' = creates a + attempts env t (creates a) \<and>
           inserts a' = (case outcome env t (creates a) of
                           Inl e \<Rightarrow> inserts a | Inr v \<Rightarrow> Suc (inserts a)) \<and>
           filter storeVisible tr =
             replicate (attempts env t (creates a)) (Create t) @
             (case outcome env t (creates a) of
                Inl e \<Rightarrow> [ConsoleError ''Failed to process document'' [i + 1] e]
              | Inr v \<Rightarrow>
                  [Insert t,
                   (case documents_insert env (inserts a) t v of
                      Inl error \<Rightarrow> ConsoleError ''Error storing embedding:'' [] error
                    | Inr [] \<Rightarrow> ConsoleError ''Failed to process document'' [i + 1] TypeError
                    | Inr (rowId # _) \<Rightarrow> ConsoleLog ''Stored document with ID:'' [i + 1, rowId])])"
proof -
  let ?m = "attempts env t (creates a)"
  from invoker_outcome [OF assms, of env t] obtain a1 tr where
    0: "getEmbeddingWithRetry env t 3 a = Some (outcome env t (creates a), a1)"
    and 1: "ready C (limiter a1)" and 3: "trace a1 = trace a @ tr"
    and 4: "filter storeVisible tr = replicate ?m (Create t)"
    and 5: "creates a1 = creates a + ?m" "inserts a1 = inserts a"
    by blast
  show ?thesis
  proof (cases "outcome env t (creates a)")
    case (Inl e)
    let ?l = "ConsoleError ''Failed to process document'' [i + 1] e"
    have "storeDocument env n i t a = Some (emit ?l a1)"
      using 0 Inl by (simp add: storeDocument_def)
    moreover have "trace (emit ?l a1) = trace a @ (tr @ [?l])" using 3 by (simp add: emit_def)
    moreover have "ready C (limiter (emit ?l a1))" using 1 by (simp add: emit_def)
    moreover have "filter storeVisible (tr @ [?l]) = replicate ?m (Create t) @ [?l]"
      using 4 by simp
    moreover have "creates (emit ?l a1) = creates a + ?m" "inserts (emit ?l a1) = inserts a"
      using 5 by (simp_all add: emit_def)
    ultimately show ?thesis using Inl by (intro exI [of _ "emit ?l a1"] exI [of _ "tr @ [?l]"]) simp
  next
    case (Inr embedding)
    define a2 where "a2 = emit (ConsoleLog ''Generated embedding for document'' [i + 1, n]) a1"
    define a3 where "a3 = emit (Insert t) (a2\<lparr> inserts := Suc (inserts a2) \<rparr>)"
    define pre where "pre = tr @ [ConsoleLog ''Generated embedding for document'' [i + 1, n], Insert t]"
    have t3: "trace a3 = trace a @ pre" using 3 by (simp add: a3_def a2_def pre_def emit_def)
    have i3: "ready C (limiter a3)" using 1 by (simp add: a3_def a2_def emit_def)
    have v3: "filter storeVisible pre = replicate ?m (Create t) @ [Insert t]"
      using 4 by (simp add: pre_def)
    have c3: "creates a3 = creates a + ?m" "inserts a3 = Suc (inserts a)" "inserts a2 = inserts a"
      using 5 by (simp_all add: a3_def a2_def emit_def)
    have sd: "storeDocument env n i t a =
        (case documents_insert env (inserts a2) t embedding of
                Inl error \<Rightarrow> Some (emit (ConsoleError ''Error storing embedding:'' [] error) a3)
              | Inr [] \<Rightarrow>
                  Some (emit (ConsoleError ''Failed to process document'' [i + 1] TypeError) a3)
              | Inr (rowId # _) \<Rightarrow>
                  Some (delay 1000
                          (emit (ConsoleLog ''Stored document with ID:'' [i + 1, rowId]) a3)))"
      unfolding storeDocument_def a2_def a3_def Let_def 0 [unfolded Inr]
      by (simp only: option.case prod.case sum.case)
    have fin: ?thesis
      if "storeDocument env n i t a = Some a'" and "ready C (limiter a')"
        and "trace a' = trace a3 @ post" and "creates a' = creates a3" and "inserts a' = inserts a3"
        and "filter storeVisible post =
               [case documents_insert env (inserts a) t embedding of
                  Inl error \<Rightarrow> ConsoleError ''Error storing embedding:'' [] error
                | Inr [] \<Rightarrow> ConsoleError ''Failed to process document'' [i + 1] TypeError
                | Inr (rowId # _) \<Rightarrow> ConsoleLog ''Stored document with ID:'' [i + 1, rowId]]"
      for a' post
    proof -
      have "trace a' = trace a @ (pre @ post)" using that(3) t3 by simp
      moreover have "filter storeVisible (pre @ post) =
             replicate ?m (Create t) @
             [Insert t,
              (case documents_insert env (inserts a) t embedding of
                  Inl error \<Rightarrow> ConsoleError ''Error storing embedding:'' [] error
                | Inr [] \<Rightarrow> ConsoleError ''Failed to process document'' [i + 1] TypeError
                | Inr (rowId # _) \<Rightarrow> ConsoleLog ''Stored document with ID:'' [i + 1, rowId])]"
        using v3 that(6) by simp
      moreover have "creates a' = creates a + ?m" "inserts a' = Suc (inserts a)"
        using that(4,5) c3 by simp_all
      ultimately show ?thesis using that(1,2) Inr
        by (intro exI [of _ a'] exI [of _ "pre @ post"]) simp
    qed
    show ?thesis
    proof (cases "documents_insert env (inserts a) t embedding")
      case (Inl error)
      let ?l = "ConsoleError ''Error storing embedding:'' [] error"
      show ?thesis
        by (rule fin [of "emit ?l a3" "[?l]"]) (use sd Inl i3 c3 in \<open>simp_all add: emit_def\<close>)
    next
      case (Inr rows)
      show ?thesis
      proof (cases rows)
        case Nil
        let ?l = "ConsoleError ''Failed to process document'' [i + 1] TypeError"
        show ?thesis
          by (rule fin [of "emit ?l a3" "[?l]"]) (use sd Inr Nil i3 c3 in \<open>simp_all add: emit_def\<close>)
      next
        case (Cons rowId rest)
        let ?l = "ConsoleLog ''Stored document with ID:'' [i + 1, rowId]"
        have "ready C (limiter (delay 1000 (emit ?l a3)))"
          using ready_advance [OF i3, of 1000] by (simp add: delay_def emit_def)
        then show ?thesis
          by (intro fin [of "delay 1000 (emit ?l a3)" "[?l, Delay 1000]"])
             (use sd Inr Cons c3 in \<open>simp_all add: emit_def delay_def\<close>)
      qed
    qed
  qed
qed

lemma storePlan_Cons:
  "storePlan env i c k (t # rest) =
     (replicate (attempts env t c) (Create t) @
      (case outcome env t c of
         Inl e \<Rightarrow> [ConsoleError ''Failed to process document'' [i + 1] e]
       | Inr v \<Rightarrow>
           [Insert t,
            (case documents_insert env k t v of
               Inl error \<Rightarrow> ConsoleError ''Error storing embedding:'' [] error
             | Inr [] \<Rightarrow> ConsoleError ''Failed to process document'' [i + 1] TypeError
             | Inr (rowId # _) \<Rightarrow> ConsoleLog ''Stored document with ID:'' [i + 1, rowId])])) @
     storePlan env (Suc i) (c + attempts env t c)
       (case outcome env t c of Inl e \<Rightarrow> k | Inr v \<Rightarrow> Suc k) rest"
  by (cases "outcome env t c") simp_all

lemma storeLoop_plan:
  assumes "ready C (limiter a)"
  shows "\<exists>a' tr. storeLoop env documents i a = Some a' \<and> ready C (limiter a') \<and>
           trace a' = trace a @ tr \<and>
           filter storeVisible tr = storePlan env i (creates a) (inserts a) (drop i documents)"
  using assms
proof (induction "length documents - i" arbitrary: i a)
  case 0
  then have "storeLoop env documents i a = Some a" by (simp add: storeLoop.simps)
  then show ?case using "0.prems" "0.hyps"
    by (intro exI [of _ a] exI [of _ "[]"]) simp
next
  case (Suc k)
  have lt: "i < length documents" using Suc.hyps(2) by simp
  let ?t = "documents ! i"
  from storeDocument_plan [OF Suc.prems, of env "length documents" i ?t]
  obtain a1 tr1 where
    0: "storeDocument env (length documents) i ?t a = Some a1"
    and 1: "ready C (limiter a1)" and 2: "trace a1 = trace a @ tr1"
    and 3: "creates a1 = creates a + attempts env ?t (creates a)"
      "inserts a1 = (case outcome env ?t (creates a) of
                       Inl e \<Rightarrow> inserts a | Inr v \<Rightarrow> Suc (inserts a))"
    and 4: "filter storeVisible tr1 =
             replicate (attempts env ?t (creates a)) (Create ?t) @
             (case outcome env ?t (creates a) of
                Inl e \<Rightarrow> [ConsoleError ''Failed to process document'' [i + 1] e]
              | Inr v \<Rightarrow>
                  [Insert ?t,
                   (case documents_insert env (inserts a) ?t v of
                      Inl error \<Rightarrow> ConsoleError ''Error storing embedding:'' [] error
                    | Inr [] \<Rightarrow> ConsoleError ''Failed to process document'' [i + 1] TypeError
                    | Inr (rowId # _) \<Rightarrow> ConsoleLog ''Stored document with ID:'' [i + 1, rowId])])"
    by blast
  have st: "storeLoop env documents i a = storeLoop env documents (Suc i) a1"
    using lt 0 by (simp add: storeLoop.simps [of env documents i a])
  have k: "k = length documents - Suc i" using Suc.hyps(2) by simp
  from Suc.hyps(1) [OF k 1] obtain a' tr where
    7: "storeLoop env documents (Suc i) a1 = Some a'" and 8: "ready C (limiter a')"
    and 9: "trace a' = trace a1 @ tr"
    and 10: "filter storeVisible tr =
               storePlan env (Suc i) (creates a1) (inserts a1) (drop (Suc i) documents)"
    by blast
  have A: "storeLoop env documents i a = Some a'" using st 7 by simp
  have B: "trace a' = trace a @ (tr1 @ tr)" using 2 9 by simp
  have d: "drop i documents = ?t # drop (Suc i) documents"
    by (rule Cons_nth_drop_Suc [OF lt, symmetric])
  have F: "filter storeVisible (tr1 @ tr) =
             storePlan env i (creates a) (inserts a) (drop i documents)"
    unfolding d storePlan_Cons filter_append 4 10 3 by simp
  show ?case using A 8 B F by blast
qed

lemma chunkPlan_Cons:
  "chunkPlan env n p c (t # rest) =
     (replicate (attempts env t c) (Create t) @
      [case outcome env t c of
         Inl e \<Rightarrow> ConsoleError ''Error processing chunk:'' [] e
       | Inr v \<Rightarrow> ConsoleLog ''Processed chunk'' [p + 1, n]]) @
     chunkPlan env n (case outcome env t c of Inl e \<Rightarrow> p | Inr v \<Rightarrow> Suc p)
       (c + attempts env t c) rest"
  by (cases "outcome env t c") simp_all

lemma chunkLoop_plan:
  assumes "ready C (limiter a)"
  shows "\<exists>a' tr. chunkLoop env n chunks data a =
                    Some (data @ embedded env (creates a) chunks, a') \<and>
           ready C (limiter a') \<and> trace a' = trace a @ tr \<and>
           filter movieVisible tr = chunkPlan env n (length data) (creates a) chunks"
  using assms
proof (induction chunks arbitrary: data a)
  case Nil
  then show ?case by (intro exI [of _ a] exI [of _ "[]"]) simp
next
  case (Cons chunk chunks)
  let ?m = "attempts env chunk (creates a)"
  from invoker_outcome [OF Cons.prems, of env chunk] obtain a1 tr1 where
    0: "getEmbeddingWithRetry env chunk 3 a = Some (outcome env chunk (creates a), a1)"
    and 1: "ready C (limiter a1)" and 3: "trace a1 = trace a @ tr1"
    and 4: "filter movieVisible tr1 = replicate ?m (Create chunk)"
    and 5: "creates a1 = creates a + ?m"
    by blast
  define l where "l = (case outcome env chunk (creates a) of
         Inl e \<Rightarrow> ConsoleError ''Error processing chunk:'' [] e
       | Inr v \<Rightarrow> ConsoleLog ''Processed chunk'' [length data + 1, n])"
  define data1 where "data1 = data @ (case outcome env chunk (creates a) of
         Inl e \<Rightarrow> [] | Inr v \<Rightarrow> [(chunk, v)])"
  have st: "chunkLoop env n (chunk # chunks) data a = chunkLoop env n chunks data1 (emit l a1)"
    using 0 by (cases "outcome env chunk (creates a)")
      (simp_all add: createEmbeddingWithRetry_get l_def data1_def)
  have lv: "movieVisible l" by (cases "outcome env chunk (creates a)") (simp_all add: l_def)
  have ld: "length data1 = (case outcome env chunk (creates a) of
         Inl e \<Rightarrow> length data | Inr v \<Rightarrow> Suc (length data))"
    by (cases "outcome env chunk (creates a)") (simp_all add: data1_def)
  have i2: "ready C (limiter (emit l a1))" using 1 by (simp add: emit_def)
  have c2: "creates (emit l a1) = creates a + ?m" using 5 by (simp add: emit_def)
  from Cons.IH [OF i2, of data1] obtain a' tr where
    7: "chunkLoop env n chunks data1 (emit l a1) =
          Some (data1 @ embedded env (creates (emit l a1)) chunks, a')"
    and 8: "ready C (limiter a')"
    and 9: "trace a' = trace (emit l a1) @ tr"
    and 10: "filter movieVisible tr = chunkPlan env n (length data1) (creates (emit l a1)) chunks"
    by blast
  have A: "chunkLoop env n (chunk # chunks) data a =
             Some (data @ embedded env (creates a) (chunk # chunks), a')"
    using st 7 c2 by (simp add: data1_def)
  have B: "trace a' = trace a @ (tr1 @ [l] @ tr)" using 3 9 by (simp add: emit_def)
  have F: "filter movieVisible (tr1 @ [l] @ tr) =
             chunkPlan env n (length data) (creates a) (chunk # chunks)"
    unfolding chunkPlan_Cons using 4 10 lv c2 ld by (simp add: l_def)
  show ?case using A 8 B F by blast
qed

lemma storePlan_lines:
  "list_all2 lineOf [i..<i + length documents] (filter isItemLine (storePlan env i c k documents))"
proof (induction documents arbitrary: i c k)
  case Nil
  show ?case by simp
next
  case (Cons t rest)
  have "i < i + length (t # rest)" by simp
  then have "[i..<i + length (t # rest)] = i # [Suc i..<i + length (t # rest)]"
    by (rule upt_conv_Cons)
  then have u: "[i..<i + length (t # rest)] = i # [Suc i..<Suc i + length rest]" by simp
  show ?case
  proof (cases "outcome env t c")
    case (Inl e)
    then show ?thesis unfolding u using Cons [of "Suc i" "c + attempts env t c" k] by simp
  next
    case (Inr v)
    show ?thesis
    proof (cases "documents_insert env k t v")
      case (Inl error)
      then show ?thesis
        unfolding u using Inr Cons [of "Suc i" "c + attempts env t c" "Suc k"] by simp
    next
      case rows: (Inr rows)
      then show ?thesis
        unfolding u using Inr Cons [of "Suc i" "c + attempts env t c" "Suc k"]
        by (cases rows) simp_all
    qed
  qed
qed

lemma itemLines_visible: "filter isItemLine (filter storeVisible tr) = filter isItemLine tr"
proof (induction tr)
  case Nil
  show ?case by simp
next
  case (Cons x tr)
  then show ?case by (cases x) simp_all
qed

subsection \<open>The batch goes through every item\<close>

text \<open>
  Claim C6 says of the batch drivers that an item for which storage reports a failure is
  skipped and that the batch always completes. \<^verbatim>\<open>processAndStoreMovies\<close> hands all its
  embedded chunks to storage in one \<^verbatim>\<open>insert\<close> after the loop, and \<^verbatim>\<open>if (error) throw error\<close>
  follows it: below, both chunks are embedded, storage refuses the insert, and the call
  throws the error of storage.
\<close>

theorem storage_failure_ends_movie_batch:
  "processAndStoreMovies storageDown (newApp 3 0) =
     Some (Inl storageError,
           \<lparr> limiter = Queued \<lparr> tokens = 1, maxTokens = 3, lastRefill = 0, clock = 0,
                                 waitQueue = [], timer = None, nextReq = 2,
                                 settled = [(0, Resolved True, 0), (1, Resolved True, 0)] \<rparr>,
             trace = [ConsoleLog ''Starting movie processing...'' [],
                      ConsoleLog ''Creating embeddings...'' [],
                      Token 0, Create [49], ConsoleLog ''Processed chunk'' [1, 2],
                      Token 1, Create [50], ConsoleLog ''Processed chunk'' [2, 2],
                      ConsoleLog ''Storing in Supabase...'' [], InsertAll [[49], [50]],
                      ConsoleError ''Error in processAndStoreMovies:'' [] storageError],
             creates = 2, chats = 0, inserts = 0, rpcs = 0 \<rparr>)"
  by code_simp

text \<open>
  Claim C6, as the code has it, for a driver that is the only caller of its limiter while
  it runs. \<^verbatim>\<open>storeEmbeddings\<close> runs to its last line, whatever the provider and the storage
  answer. What it does for the documents is what \<open>storePlan\<close> reads off these answers, in
  this order: for each document in input order the outbound embedding calls, one to
  three; if the invocation failed (after its retries or at once), the line that says so,
  and nothing is handed to storage; otherwise the insert of this document, and the line
  that says that it was stored or that storage reported an error for it. In either case
  the next document follows, so that every document ends with exactly one such line.

  \<^verbatim>\<open>processAndStoreMovies\<close>, when the table is empty and the chunks could be fetched,
  goes through the chunks in the same way (\<open>chunkPlan\<close>), with one console line for each
  chunk, and always returns or throws. What it hands to storage, in one insert after the
  loop, are exactly the chunks whose invocation succeeded, each with the embedding the
  provider returned, in input order (\<open>embedded\<close>). When storage accepts them the call
  returns them; when storage reports an error, the call logs that error and throws it.
\<close>

theorem batch_continues_past_failures:
  assumes "ready C (limiter a)"
  shows "(\<exists>a' tr. storeEmbeddings env documents a = Some a' \<and> trace a' = trace a @ tr \<and>
            last tr = ConsoleLog ''Finished storing embeddings'' [] \<and>
            filter storeVisible tr = storePlan env 0 (creates a) (inserts a) documents \<and>
            list_all2 lineOf [0..<length documents] (filter isItemLine tr)) \<and>
         (length (existingRows (movies_select env)) = 0 \<longrightarrow> movies_chunks env = Inr chunks \<longrightarrow>
            (\<exists>res a' tr.
               processAndStoreMovies env a = Some (res, a') \<and> trace a' = trace a @ tr \<and>
               filter movieVisible tr =
                 chunkPlan env (length chunks) 0 (creates a) chunks @
                 [InsertAll (map fst (embedded env (creates a) chunks))] \<and>
               (case movies_insert env (embedded env (creates a) chunks) of
                  None \<Rightarrow>
                    res = Inr (Processed (embedded env (creates a) chunks)) \<and>
                    last tr = ConsoleLog ''Successfully processed movies''
                                [length (embedded env (creates a) chunks)]
                | Some error \<Rightarrow>
                    res = Inl error \<and>
                    last tr = ConsoleError ''Error in processAndStoreMovies:'' [] error)))"
proof (intro conjI impI)
  define a0 where "a0 = emit (ConsoleLog ''Starting to store embeddings...'' []) a"
  have i0: "ready C (limiter a0)" using assms by (simp add: a0_def emit_def)
  have f0: "creates a0 = creates a" "inserts a0 = inserts a" by (simp_all add: a0_def emit_def)
  from storeLoop_plan [OF i0, of env documents 0] obtain a1 tr where
    0: "storeLoop env documents 0 a0 = Some a1" and 1: "trace a1 = trace a0 @ tr"
    and 4: "filter storeVisible tr = storePlan env 0 (creates a) (inserts a) documents"
    unfolding f0 by auto
  define tr' where "tr' = [ConsoleLog ''Starting to store embeddings...'' []] @ tr @
                          [ConsoleLog ''Finished storing embeddings'' []]"
  define a' where "a' = emit (ConsoleLog ''Finished storing embeddings'' []) a1"
  have A: "storeEmbeddings env documents a = Some a'"
    using 0 by (simp add: storeEmbeddings_def a0_def a'_def)
  have B: "trace a' = trace a @ tr'" using 1 by (simp add: a'_def a0_def tr'_def emit_def)
  have D: "last tr' = ConsoleLog ''Finished storing embeddings'' []" by (simp add: tr'_def)
  have E: "filter storeVisible tr' = storePlan env 0 (creates a) (inserts a) documents"
    using 4 by (simp add: tr'_def)
  have "filter isItemLine tr' = filter isItemLine (filter storeVisible tr')"
    by (rule itemLines_visible [symmetric])
  then have F: "list_all2 lineOf [0..<length documents] (filter isItemLine tr')"
    unfolding E using storePlan_lines [of 0 documents env "creates a" "inserts a"] by simp
  show "\<exists>a' tr. storeEmbeddings env documents a = Some a' \<and> trace a' = trace a @ tr \<and>
            last tr = ConsoleLog ''Finished storing embeddings'' [] \<and>
            filter storeVisible tr = storePlan env 0 (creates a) (inserts a) documents \<and>
            list_all2 lineOf [0..<length documents] (filter isItemLine tr)"
    using A B D E F by blast
next
  assume ex: "length (existingRows (movies_select env)) = 0" and ch: "movies_chunks env = Inr chunks"
  define a1 where "a1 = emit (ConsoleLog ''Creating embeddings...'' [])
                          (emit (ConsoleLog ''Starting movie processing...'' []) a)"
  define data where "data = embedded env (creates a) chunks"
  have i1: "ready C (limiter a1)" using assms by (simp add: a1_def emit_def)
  have f1: "creates a1 = creates a" by (simp add: a1_def emit_def)
  from chunkLoop_plan [OF i1, of env "length chunks" chunks "[]"]
  obtain a2 tr where
    0: "chunkLoop env (length chunks) chunks [] a1 = Some (data, a2)"
    and 1: "trace a2 = trace a1 @ tr"
    and 4: "filter movieVisible tr = chunkPlan env (length chunks) 0 (creates a) chunks"
    unfolding f1 data_def by auto
  define a3 where "a3 = emit (InsertAll (map fst data))
                          (emit (ConsoleLog ''Storing in Supabase...'' []) a2)"
  define pre where "pre = [ConsoleLog ''Starting movie processing...'' [],
                           ConsoleLog ''Creating embeddings...'' []] @ tr @
                          [ConsoleLog ''Storing in Supabase...'' [], InsertAll (map fst data)]"
  have t3: "trace a3 = trace a @ pre" using 1 by (simp add: a3_def a1_def pre_def emit_def)
  have run: "processAndStoreMovies env a =
      (case movies_insert env data of
         Some error \<Rightarrow> rethrow ''Error in processAndStoreMovies:'' error a3
       | None \<Rightarrow> Some (Inr (Processed data),
                       emit (ConsoleLog ''Successfully processed movies'' [length data]) a3))"
    using ex ch 0 unfolding a1_def a3_def by (simp add: processAndStoreMovies_def Let_def)
  have vp: "filter movieVisible pre =
              chunkPlan env (length chunks) 0 (creates a) chunks @ [InsertAll (map fst data)]"
    using 4 by (simp add: pre_def)
  show "\<exists>res a' tr.
               processAndStoreMovies env a = Some (res, a') \<and> trace a' = trace a @ tr \<and>
               filter movieVisible tr =
                 chunkPlan env (length chunks) 0 (creates a) chunks @
                 [InsertAll (map fst (embedded env (creates a) chunks))] \<and>
               (case movies_insert env (embedded env (creates a) chunks) of
                  None \<Rightarrow>
                    res = Inr (Processed (embedded env (creates a) chunks)) \<and>
                    last tr = ConsoleLog ''Successfully processed movies''
                                [length (embedded env (creates a) chunks)]
                | Some error \<Rightarrow>
                    res = Inl error \<and>
                    last tr = ConsoleError ''Error in processAndStoreMovies:'' [] error)"
    unfolding data_def [symmetric]
  proof (cases "movies_insert env data")
    case None
    define l where "l = ConsoleLog ''Successfully processed movies'' [length data]"
    have r: "processAndStoreMovies env a = Some (Inr (Processed data), emit l a3)"
      using run None by (simp add: l_def)
    have t: "trace (emit l a3) = trace a @ (pre @ [l])" using t3 by (simp add: emit_def)
    have v: "filter movieVisible (pre @ [l]) =
               chunkPlan env (length chunks) 0 (creates a) chunks @ [InsertAll (map fst data)]"
      using vp by (simp add: l_def)
    have k: "(case movies_insert env data of
                  None \<Rightarrow>
                    Inr (Processed data) = Inr (Processed data) \<and>
                    last (pre @ [l]) = ConsoleLog ''Successfully processed movies'' [length data]
                | Some error \<Rightarrow>
                    Inr (Processed data) = Inl error \<and>
                    last (pre @ [l]) = ConsoleError ''Error in processAndStoreMovies:'' [] error)"
      using None by (simp add: l_def)
    show "\<exists>res a' tr.
               processAndStoreMovies env a = Some (res, a') \<and> trace a' = trace a @ tr \<and>
               filter movieVisible tr =
                 chunkPlan env (length chunks) 0 (creates a) chunks @ [InsertAll (map fst data)] \<and>
               (case movies_insert env data of
                  None \<Rightarrow>
                    res = Inr (Processed data) \<and>
                    last tr = ConsoleLog ''Successfully processed movies'' [length data]
                | Some error \<Rightarrow>
                    res = Inl error \<and>
                    last tr = ConsoleError ''Error in processAndStoreMovies:'' [] error)"
      using r t v k by blast
  next
    case (Some error)
    define l where "l = ConsoleError ''Error in processAndStoreMovies:'' [] error"
    have r: "processAndStoreMovies env a = Some (Inl error, emit l a3)"
      using run Some by (simp add: l_def rethrow_def)
    have t: "trace (emit l a3) = trace a @ (pre @ [l])" using t3 by (simp add: emit_def)
    have v: "filter movieVisible (pre @ [l]) =
               chunkPlan env (length chunks) 0 (creates a) chunks @ [InsertAll (map fst data)]"
      using vp by (simp add: l_def)
    have k: "(case movies_insert env data of
                  None \<Rightarrow>
                    (Inl error :: error + movies) = Inr (Processed data) \<and>
                    last (pre @ [l]) = ConsoleLog ''Successfully processed movies'' [length data]
                | Some error' \<Rightarrow>
                    (Inl error :: error + movies) = Inl error' \<and>
                    last (pre @ [l]) = ConsoleError ''Error in processAndStoreMovies:'' [] error')"
      using Some by (simp add: l_def)
    show "\<exists>res a' tr.
               processAndStoreMovies env a = Some (res, a') \<and> trace a' = trace a @ tr \<and>
               filter movieVisible tr =
                 chunkPlan env (length chunks) 0 (creates a) chunks @ [InsertAll (map fst data)] \<and>
               (case movies_insert env data of
                  None \<Rightarrow>
                    res = Inr (Processed data) \<and>
                    last tr = ConsoleLog ''Successfully processed movies'' [length data]
                | Some error \<Rightarrow>
                    res = Inl error \<and>
                    last tr = ConsoleError ''Error in processAndStoreMovies:'' [] error)"
      using r t v k by blast
  qed
qed

theorem batch_continues_past_failures_witness:
  "(\<exists>a'. storeEmbeddings throttledOn51 [[49], [50], [51], [52], [53]] (newIndexApp 3 0) = Some a' \<and>
      filter storeVisible (trace a') =
        [Create [49], Insert [49], ConsoleLog ''Stored document with ID:'' [1, 0],
         Create [50], Insert [50], ConsoleLog ''Stored document with ID:'' [2, 1],
         Create [51], Create [51], Create [51],
         ConsoleError ''Failed to process document'' [3] maxRetriesError,
         Create [52], Insert [52], ConsoleLog ''Stored document with ID:'' [4, 2],
         Create [53], Insert [53], ConsoleLog ''Stored document with ID:'' [5, 3]] \<and>
      last (trace a') = ConsoleLog ''Finished storing embeddings'' []) \<and>
   (\<exists>a'. processAndStoreMovies movieChunks (newApp 3 0) =
            Some (Inr (Processed [([49], [0]), ([53], [4])]), a') \<and>
      filter movieVisible (trace a') =
        [Create [49], ConsoleLog ''Processed chunk'' [1, 3],
         Create [51], Create [51], Create [51],
         ConsoleError ''Error processing chunk:'' [] maxRetriesError,
         Create [53], ConsoleLog ''Processed chunk'' [2, 3],
         InsertAll [[49], [53]]])"
proof
  let ?run = "storeEmbeddings throttledOn51 [[49], [50], [51], [52], [53]] (newIndexApp 3 0)"
  have i: "ready 3 (limiter (newIndexApp 3 0))" by (rule ready_newIndexApp) simp
  from batch_continues_past_failures [OF i, of throttledOn51 "[[49], [50], [51], [52], [53]]"]
  obtain a' where a': "?run = Some a'" by blast
  have 1: "filter storeVisible (trace (the ?run)) =
        [Create [49], Insert [49], ConsoleLog ''Stored document with ID:'' [1, 0],
         Create [50], Insert [50], ConsoleLog ''Stored document with ID:'' [2, 1],
         Create [51], Create [51], Create [51],
         ConsoleError ''Failed to process document'' [3] maxRetriesError,
         Create [52], Insert [52], ConsoleLog ''Stored document with ID:'' [4, 2],
         Create [53], Insert [53], ConsoleLog ''Stored document with ID:'' [5, 3]]"
    by code_simp
  have 2: "last (trace (the ?run)) = ConsoleLog ''Finished storing embeddings'' []"
    by code_simp
  show "\<exists>a'. ?run = Some a' \<and>
      filter storeVisible (trace a') =
        [Create [49], Insert [49], ConsoleLog ''Stored document with ID:'' [1, 0],
         Create [50], Insert [50], ConsoleLog ''Stored document with ID:'' [2, 1],
         Create [51], Create [51], Create [51],
         ConsoleError ''Failed to process document'' [3] maxRetriesError,
         Create [52], Insert [52], ConsoleLog ''Stored document with ID:'' [4, 2],
         Create [53], Insert [53], ConsoleLog ''Stored document with ID:'' [5, 3]] \<and>
      last (trace a') = ConsoleLog ''Finished storing embeddings'' []"
    using a' 1 2 by simp
next
  let ?run = "processAndStoreMovies movieChunks (newApp 3 0)"
  have i: "ready 3 (limiter (newApp 3 0))" by (rule ready_newApp) simp
  have e: "length (existingRows (movies_select movieChunks)) = 0"
    by (simp add: movieChunks_def throttledOn51_def alwaysThrottled_def existingRows_def)
  have c: "movies_chunks movieChunks = Inr [[49], [51], [53]]" by (simp add: movieChunks_def)
  from batch_continues_past_failures [OF i, THEN conjunct2, rule_format, OF e c]
  obtain res a' where a': "?run = Some (res, a')" by blast
  have 1: "fst (the ?run) = Inr (Processed [([49], [0]), ([53], [4])])" by code_simp
  have 2: "filter movieVisible (trace (snd (the ?run))) =
        [Create [49], ConsoleLog ''Processed chunk'' [1, 3],
         Create [51], Create [51], Create [51],
         ConsoleError ''Error processing chunk:'' [] maxRetriesError,
         Create [53], ConsoleLog ''Processed chunk'' [2, 3],
         InsertAll [[49], [53]]]"
    by code_simp
  show "\<exists>a'. ?run = Some (Inr (Processed [([49], [0]), ([53], [4])]), a') \<and>
      filter movieVisible (trace a') =
        [Create [49], ConsoleLog ''Processed chunk'' [1, 3],
         Create [51], Create [51], Create [51],
         ConsoleError ''Error processing chunk:'' [] maxRetriesError,
         Create [53], ConsoleLog ''Processed chunk'' [2, 3],
         InsertAll [[49], [53]]]"
    using a' 1 2 by simp
qed

section \<open>Chat completions and the movie search\<close>



lemma trim_blank: "list_all isWhiteSpace q \<Longrightarrow> trim q = []"
proof -
  assume "list_all isWhiteSpace q"
  then have d: "dropWhile isWhiteSpace q = []" by (induction q) simp_all
  show ?thesis by (simp only: trim_def d rev.simps dropWhile.simps)
qed

subsection \<open>A chat completion is attempted once\<close>




subsection \<open>A blank query is refused before anything else happens\<close>

text \<open>
  Claim C9. When the query is missing, empty or made of white space only,
  \<^verbatim>\<open>searchMovies\<close> throws \<^verbatim>\<open>Search query is required\<close> and leaves the state of the caller
  as it was: no token was acquired, no call was made, the token count is unchanged.
\<close>

theorem blank_query_rejected_before_any_call:
  assumes "query = None \<or> (\<exists>q. query = Some q \<and> list_all isWhiteSpace q)"
  shows "searchMovies env query limit a = Some (Inl (Error None ''Search query is required''), a)"
  using assms by (auto simp: searchMovies_def trim_blank)

theorem blank_query_rejected_before_any_call_witness:
  "searchMovies alwaysThrottled (Some [32, 9, 10]) 3 (newApp 3 0) =
     Some (Inl (Error None ''Search query is required''), newApp 3 0) \<and>
   searchMovies alwaysThrottled None 3 (newApp 3 0) =
     Some (Inl (Error None ''Search query is required''), newApp 3 0) \<and>
   searchMovies alwaysThrottled (Some []) 3 (newApp 3 0) =
     Some (Inl (Error None ''Search query is required''), newApp 3 0)"
  using blank_query_rejected_before_any_call [of "Some [32, 9, 10]" alwaysThrottled 3 "newApp 3 0"]
    blank_query_rejected_before_any_call [of None alwaysThrottled 3 "newApp 3 0"]
    blank_query_rejected_before_any_call [of "Some []" alwaysThrottled 3 "newApp 3 0"]
  by (simp add: isWhiteSpace_def)

end
